theory Spec2Isabelle
  imports Complex_Main "HOL-Library.AList" "HOL-Library.Char_ord" "HOL-Library.List_Lexorder"
begin

section \<open>Python values and exceptions\<close>

text \<open>
  The values \<^verbatim>\<open>r.json()\<close> can return. A JSON object is a Python dict: its items in
  insertion order, looked up with \<open>map_of\<close>. Python's \<^verbatim>\<open>None\<close> is \<open>JNull\<close>. Floats are
  modelled as reals.
\<close>

datatype json =
    JNull
  | JBool bool
  | JInt int
  | JFloat real
  | JStr string
  | JArr "json list"
  | JObj "(string \<times> json) list"

text \<open>The exceptions the program can meet; every \<^verbatim>\<open>raise\<close> is an \<open>Inl\<close> of the model.\<close>

datatype error =
    AttributeError
  | TypeError
  | ValueError
  | RequestException
  | HTTPError int
  | JSONDecodeError
  | DBError

text \<open>Python truthiness, as \<^verbatim>\<open>if not rows\<close>, \<^verbatim>\<open>if not h\<close> and \<^verbatim>\<open>if retry_after\<close> use it.\<close>

fun truthy :: "json \<Rightarrow> bool" where
  "truthy JNull = False"
| "truthy (JBool b) = b"
| "truthy (JInt i) = (i \<noteq> 0)"
| "truthy (JFloat x) = (x \<noteq> 0)"
| "truthy (JStr s) = (s \<noteq> [])"
| "truthy (JArr xs) = (xs \<noteq> [])"
| "truthy (JObj kvs) = (kvs \<noteq> [])"

text \<open>
  \<^verbatim>\<open>obj.get(key)\<close>: only a dict has the method; on any other value the attribute lookup
  raises AttributeError. A missing key gives \<^verbatim>\<open>None\<close>.
\<close>

fun py_get :: "json \<Rightarrow> string \<Rightarrow> error + json" where
  "py_get (JObj kvs) key = (case map_of kvs key of None \<Rightarrow> Inr JNull | Some v \<Rightarrow> Inr v)"
| "py_get _ key = Inl AttributeError"

text \<open>\<^verbatim>\<open>obj.get(key, default)\<close>.\<close>

fun py_get_default :: "json \<Rightarrow> string \<Rightarrow> json \<Rightarrow> error + json" where
  "py_get_default (JObj kvs) key dflt = (case map_of kvs key of None \<Rightarrow> Inr dflt | Some v \<Rightarrow> Inr v)"
| "py_get_default _ key dflt = Inl AttributeError"

text \<open>
  \<^verbatim>\<open>for obj in rows\<close>: a list yields its elements, a dict its keys, a string its
  characters; a number, a boolean or None is not iterable.
\<close>

fun py_iter :: "json \<Rightarrow> error + json list" where
  "py_iter (JArr xs) = Inr xs"
| "py_iter (JObj kvs) = Inr (map (\<lambda>kv. JStr (fst kv)) kvs)"
| "py_iter (JStr s) = Inr (map (\<lambda>c. JStr [c]) s)"
| "py_iter _ = Inl TypeError"

text \<open>\<^verbatim>\<open>len(rows)\<close>, for the values that have a length.\<close>

fun py_len :: "json \<Rightarrow> error + int" where
  "py_len (JArr xs) = Inr (int (length xs))"
| "py_len (JObj kvs) = Inr (int (length kvs))"
| "py_len (JStr s) = Inr (int (length s))"
| "py_len _ = Inl TypeError"

section \<open>The world outside: the HTTP endpoint, the random source, the clock of sleeps\<close>

text \<open>
  A request is the \<^verbatim>\<open>params\<close> dict of a page request. The endpoint answers the \<open>n\<close>-th
  call of \<^verbatim>\<open>SESSION.get\<close> either by raising (a connection error, a timeout) or with
  a response: its status, its \<^verbatim>\<open>Retry-After\<close> header and its body (\<open>None\<close> when the body
  is not JSON, so that \<^verbatim>\<open>r.json()\<close> raises). The header is classified by what
  \<^verbatim>\<open>int(r.headers.get("Retry-After", "0") or "0")\<close> does with it.
\<close>

record params =
  p_skip :: int
  p_top :: int
  p_orderby :: "string option"
  p_filter :: "string option"

datatype retry_after_header = NoHeader | EmptyHeader | IntHeader int | BadHeader

record response =
  status_code :: int
  retry_after_hdr :: retry_after_header
  body :: "json option"

datatype outcome = Raises | Returns response

record world =
  server :: "nat \<Rightarrow> params \<Rightarrow> outcome"
  jitter :: "nat \<Rightarrow> real"

text \<open>
  What the process has done so far: the number of \<^verbatim>\<open>SESSION.get\<close> calls, the number of
  \<^verbatim>\<open>random.uniform\<close> draws, and the requests sent and sleeps taken, oldest first.
\<close>

datatype event = Request params | Sleep real

record io =
  calls :: nat
  draws :: nat
  trace :: "event list"

definition MAX_TOP :: int where
  "MAX_TOP = 1000"

definition MAX_RETRIES :: nat where
  "MAX_RETRIES = 5"

section \<open>Backoff\<close>

text \<open>\<^verbatim>\<open>time.sleep(d)\<close> raises ValueError on a negative length.\<close>

definition time_sleep :: "real \<Rightarrow> io \<Rightarrow> (error + unit) \<times> io" where
  "time_sleep d s =
     (if d < 0 then (Inl ValueError, s)
      else (Inr (), s\<lparr>trace := trace s @ [Sleep d]\<rparr>))"

text \<open>\<^verbatim>\<open>random.uniform(0, 1)\<close>: the next draw of the world's random source.\<close>

definition random_uniform :: "world \<Rightarrow> io \<Rightarrow> real \<times> io" where
  "random_uniform W s = (jitter W (draws s), s\<lparr>draws := Suc (draws s)\<rparr>)"

text \<open>
  \<^verbatim>\<open>
  def _sleep_backoff(attempt, retry_after=None):
      if retry_after:
          time.sleep(retry_after)
          return
      delay = min(60, (2 ** attempt) + random.uniform(0, 1))
      time.sleep(delay)
  \<close>
  \<^verbatim>\<open>if retry_after\<close> is false for None and for 0.
\<close>

definition sleep_backoff :: "world \<Rightarrow> nat \<Rightarrow> int option \<Rightarrow> io \<Rightarrow> (error + unit) \<times> io" where
  "sleep_backoff W attempt retry_after s =
     (case (case retry_after of None \<Rightarrow> None | Some ra \<Rightarrow> if ra \<noteq> 0 then Some ra else None) of
        Some ra \<Rightarrow> time_sleep (real_of_int ra) s
      | None \<Rightarrow>
          (case random_uniform W s of
             (j, s1) \<Rightarrow> time_sleep (min 60 (2 ^ attempt + j)) s1))"

text \<open>
  The delay of section 4.1 of the specification, word for word: the hint verbatim when
  present and non-zero, otherwise \<open>min(capSeconds, 2^attempt) + uniformRandom(0, 1)\<close>
  with the cap of 60 seconds.
\<close>

definition spec_next_delay :: "nat \<Rightarrow> int option \<Rightarrow> real \<Rightarrow> real" where
  "spec_next_delay attempt hint j =
     (case hint of
        Some h \<Rightarrow> if h \<noteq> 0 then real_of_int h else min 60 (2 ^ attempt) + j
      | None \<Rightarrow> min 60 (2 ^ attempt) + j)"

text \<open>The delay the code sleeps: the last sleep of the trace.\<close>

definition slept :: "(error + unit) \<times> io \<Rightarrow> real option" where
  "slept r =
     (case fst r of
        Inl e \<Rightarrow> None
      | Inr u \<Rightarrow> (case rev (trace (snd r)) of Sleep d # es \<Rightarrow> Some d | _ \<Rightarrow> None))"

section \<open>One page request: \<open>http_get\<close>\<close>

text \<open>\<^verbatim>\<open>int(r.headers.get("Retry-After", "0") or "0")\<close>: a missing or empty header is 0.\<close>

definition parse_retry_after :: "retry_after_header \<Rightarrow> error + int" where
  "parse_retry_after h =
     (case h of
        NoHeader \<Rightarrow> Inr 0
      | EmptyHeader \<Rightarrow> Inr 0
      | IntHeader n \<Rightarrow> Inr n
      | BadHeader \<Rightarrow> Inl ValueError)"

text \<open>\<^verbatim>\<open>SESSION.get(FEMA_API_URL, params=params, timeout=TIMEOUT)\<close>.\<close>

definition session_get :: "world \<Rightarrow> params \<Rightarrow> io \<Rightarrow> outcome \<times> io" where
  "session_get W p s =
     (server W (calls s) p, s\<lparr>calls := Suc (calls s), trace := trace s @ [Request p]\<rparr>)"

text \<open>\<^verbatim>\<open>r.raise_for_status()\<close> raises HTTPError for a status from 400 to 599.\<close>

definition raise_for_status :: "response \<Rightarrow> error + unit" where
  "raise_for_status r =
     (if 400 \<le> status_code r \<and> status_code r < 600 then Inl (HTTPError (status_code r))
      else Inr ())"

definition response_json :: "response \<Rightarrow> error + json" where
  "response_json r = (case body r of None \<Rightarrow> Inl JSONDecodeError | Some j \<Rightarrow> Inr j)"

text \<open>
  The body of the \<^verbatim>\<open>try\<close> block of one attempt. It returns a value, goes on to the next
  attempt (\<^verbatim>\<open>continue\<close>) or raises:
  \<^verbatim>\<open>
  r = SESSION.get(FEMA_API_URL, params=params, timeout=TIMEOUT)
  if r.status_code in (429, 503):
      ra = int(r.headers.get("Retry-After", "0") or "0")
      _sleep_backoff(attempt, ra)
      continue
  if r.status_code >= 500:
      _sleep_backoff(attempt)
      continue
  r.raise_for_status()
  j = r.json()
  return j
  \<close>
\<close>

datatype step = Return json | Continue

definition try_body :: "world \<Rightarrow> params \<Rightarrow> nat \<Rightarrow> io \<Rightarrow> (error + step) \<times> io" where
  "try_body W p attempt s =
     (case session_get W p s of
        (Raises, s1) \<Rightarrow> (Inl RequestException, s1)
      | (Returns r, s1) \<Rightarrow>
          if status_code r = 429 \<or> status_code r = 503 then
            (case parse_retry_after (retry_after_hdr r) of
               Inl e \<Rightarrow> (Inl e, s1)
             | Inr ra \<Rightarrow>
                 (case sleep_backoff W attempt (Some ra) s1 of
                    (Inl e, s2) \<Rightarrow> (Inl e, s2)
                  | (Inr u, s2) \<Rightarrow> (Inr Continue, s2)))
          else if 500 \<le> status_code r then
            (case sleep_backoff W attempt None s1 of
               (Inl e, s2) \<Rightarrow> (Inl e, s2)
             | (Inr u, s2) \<Rightarrow> (Inr Continue, s2))
          else
            (case raise_for_status r of
               Inl e \<Rightarrow> (Inl e, s1)
             | Inr u \<Rightarrow>
                 (case response_json r of
                    Inl e \<Rightarrow> (Inl e, s1)
                  | Inr j \<Rightarrow> (Inr (Return j), s1))))"

text \<open>
  The loop \<^verbatim>\<open>for attempt in range(1, MAX_RETRIES + 1)\<close>, from \<open>attempt\<close> on, with its
  handler
  \<^verbatim>\<open>
  except Exception as e:
      if attempt == MAX_RETRIES:
          raise
      _sleep_backoff(attempt)
  \<close>
  When the range is used up the function ends without a \<^verbatim>\<open>return\<close>: its value is None.
\<close>

function http_get_from :: "world \<Rightarrow> params \<Rightarrow> nat \<Rightarrow> io \<Rightarrow> (error + json) \<times> io" where
  "http_get_from W p attempt s =
     (if MAX_RETRIES < attempt then (Inr JNull, s)
      else
        (case try_body W p attempt s of
           (Inr (Return j), s1) \<Rightarrow> (Inr j, s1)
         | (Inr Continue, s1) \<Rightarrow> http_get_from W p (Suc attempt) s1
         | (Inl e, s1) \<Rightarrow>
             if attempt = MAX_RETRIES then (Inl e, s1)
             else
               (case sleep_backoff W attempt None s1 of
                  (Inl e', s2) \<Rightarrow> (Inl e', s2)
                | (Inr u, s2) \<Rightarrow> http_get_from W p (Suc attempt) s2)))"
  by pat_completeness auto
termination
  by (relation "measure (\<lambda>(W, p, attempt, s). Suc MAX_RETRIES - attempt)") auto

declare http_get_from.simps [simp del]

definition http_get :: "world \<Rightarrow> params \<Rightarrow> io \<Rightarrow> (error + json) \<times> io" where
  "http_get W p s = http_get_from W p 1 s"

section \<open>The database\<close>

text \<open>
  The landing table \<open>(hash text primary key, raw jsonb, lastrefresh timestamptz)\<close> and
  the flat table, as lists of rows keyed by \<open>hash\<close>. A \<open>timestamptz\<close> is an instant, a
  number of microseconds; NULL is \<open>None\<close>. A \<open>jsonb\<close> value is the document itself.
\<close>

record landing_row =
  l_raw :: json
  l_lastrefresh :: "int option"

datatype sqltype = Smallint | Date | Text | Integer | Numeric | Timestamptz | Bigint

datatype sqlval =
    SqlInt int
  | SqlNumeric real
  | SqlText string
  | SqlDate int
  | SqlTimestamp int

record flat_row =
  f_lastrefresh :: "int option"
  f_columns :: "(string \<times> sqlval option) list"
  f_raw :: json

text \<open>
  The store: both tables, and the number of write transactions committed so far
  (each \<^verbatim>\<open>with ENGINE.begin() as c: c.execute(...)\<close> that completes is one).
\<close>

record store =
  landing :: "(string \<times> landing_row) list"
  flat :: "(string \<times> flat_row) list"
  writes :: nat

text \<open>
  PostgreSQL and its driver are not part of the repository; their conversions are
  parameters of the model. \<open>adapt_text\<close>: the text stored when a value that is not a
  string is bound to the column \<open>hash\<close>; \<open>timestamptz_in\<close>: the input conversion of
  \<open>timestamptz\<close>; \<open>jsonb_text\<close>: the text \<open>->>\<close> gives for a value that is neither a string
  nor null; \<open>cast_text\<close>: the casts of the flat table's columns. \<open>None\<close> is a conversion
  error: the statement fails and its transaction is rolled back.
\<close>

record engine =
  adapt_text :: "json \<Rightarrow> string option"
  timestamptz_in :: "string \<Rightarrow> int option"
  jsonb_text :: "json \<Rightarrow> string"
  cast_text :: "sqltype \<Rightarrow> string \<Rightarrow> sqlval option"

subsection \<open>\<open>upsert_landing\<close>\<close>

text \<open>
  One entry of \<^verbatim>\<open>payload\<close>: \<^verbatim>\<open>{"hash": h, "raw": json.dumps(obj), "lastrefresh": lr}\<close>.
\<close>

record payload_item =
  pl_hash :: json
  pl_raw :: json
  pl_lastrefresh :: json

text \<open>
  \<^verbatim>\<open>
  for obj in rows:
      h = obj.get("hash")
      if not h:
          continue
      lr = obj.get("lastRefresh")  # ISO string or None
      payload.append({"hash": h, "raw": json.dumps(obj), "lastrefresh": lr})
  \<close>
\<close>

fun build_payload :: "json list \<Rightarrow> error + payload_item list" where
  "build_payload [] = Inr []"
| "build_payload (obj # rows) =
     (case py_get obj ''hash'' of
        Inl e \<Rightarrow> Inl e
      | Inr h \<Rightarrow>
          if \<not> truthy h then build_payload rows
          else
            (case py_get obj ''lastRefresh'' of
               Inl e \<Rightarrow> Inl e
             | Inr lr \<Rightarrow>
                 (case build_payload rows of
                    Inl e \<Rightarrow> Inl e
                  | Inr payload \<Rightarrow>
                      Inr (\<lparr>pl_hash = h, pl_raw = obj, pl_lastrefresh = lr\<rparr> # payload))))"

text \<open>The value of \<^verbatim>\<open>:hash\<close> as the text column stores it.\<close>

definition bind_hash :: "engine \<Rightarrow> json \<Rightarrow> string option" where
  "bind_hash E h = (case h of JStr s \<Rightarrow> Some s | _ \<Rightarrow> adapt_text E h)"

text \<open>
  \<^verbatim>\<open>NULLIF(:lastrefresh,'')::timestamptz\<close>: None and the empty string give NULL, any
  other string goes through the input conversion; a parameter that is not a string
  cannot be compared with \<^verbatim>\<open>''\<close> and the statement fails.
\<close>

definition bind_lastrefresh :: "engine \<Rightarrow> json \<Rightarrow> int option option" where
  "bind_lastrefresh E lr =
     (case lr of
        JNull \<Rightarrow> Some None
      | JStr s \<Rightarrow>
          if s = [] then Some None
          else (case timestamptz_in E s of None \<Rightarrow> None | Some t \<Rightarrow> Some (Some t))
      | _ \<Rightarrow> None)"

text \<open>\<^verbatim>\<open>COALESCE(a, b)\<close>.\<close>

definition coalesce :: "'a option \<Rightarrow> 'a option \<Rightarrow> 'a option" where
  "coalesce a b = (case a of Some x \<Rightarrow> Some x | None \<Rightarrow> b)"

text \<open>
  The statement for one parameter set:
  \<^verbatim>\<open>
  INSERT INTO landing (hash, raw, lastrefresh)
  VALUES (:hash, CAST(:raw AS JSONB), NULLIF(:lastrefresh,'')::timestamptz)
  ON CONFLICT (hash) DO UPDATE SET
    raw = EXCLUDED.raw,
    lastrefresh = COALESCE(EXCLUDED.lastrefresh, landing.lastrefresh);
  \<close>
\<close>

definition upsert_row ::
  "engine \<Rightarrow> payload_item \<Rightarrow> (string \<times> landing_row) list \<Rightarrow> (string \<times> landing_row) list option" where
  "upsert_row E it L =
     (case bind_hash E (pl_hash it) of
        None \<Rightarrow> None
      | Some k \<Rightarrow>
          (case bind_lastrefresh E (pl_lastrefresh it) of
             None \<Rightarrow> None
           | Some lr \<Rightarrow>
               (case map_of L k of
                  None \<Rightarrow> Some (AList.update k \<lparr>l_raw = pl_raw it, l_lastrefresh = lr\<rparr> L)
                | Some old \<Rightarrow>
                    Some (AList.update k
                      \<lparr>l_raw = pl_raw it, l_lastrefresh = coalesce lr (l_lastrefresh old)\<rparr> L))))"

text \<open>
  \<^verbatim>\<open>c.execute(sql, payload)\<close> with a list of parameter sets runs the statement once per
  set, in order, in one transaction.
\<close>

fun execute_upsert ::
  "engine \<Rightarrow> payload_item list \<Rightarrow> (string \<times> landing_row) list \<Rightarrow> (string \<times> landing_row) list option" where
  "execute_upsert E [] L = Some L"
| "execute_upsert E (it # payload) L =
     (case upsert_row E it L of
        None \<Rightarrow> None
      | Some L' \<Rightarrow> execute_upsert E payload L')"

text \<open>
  \<^verbatim>\<open>
  def upsert_landing(rows):
      if not rows:
          return 0
      payload = [...]
      if not payload:
          return 0
      with ENGINE.begin() as c:
          c.execute(sql, payload)
      return len(payload)
  \<close>
  The result is the count and the store afterwards. When an exception is raised the
  store is the one before the call.
\<close>

definition upsert_landing :: "engine \<Rightarrow> json list \<Rightarrow> store \<Rightarrow> error + (int \<times> store)" where
  "upsert_landing E rows db =
     (if rows = [] then Inr (0, db)
      else
        (case build_payload rows of
           Inl e \<Rightarrow> Inl e
         | Inr payload \<Rightarrow>
             if payload = [] then Inr (0, db)
             else
               (case execute_upsert E payload (landing db) of
                  None \<Rightarrow> Inl DBError
                | Some L' \<Rightarrow>
                    Inr (int (length payload),
                         db\<lparr>landing := L', writes := Suc (writes db)\<rparr>))))"

text \<open>
  The store a call of \<open>upsert_landing\<close> or \<open>sync_flat_from_landing\<close> leaves behind,
  whether it returns or raises.
\<close>

definition store_after :: "error + (int \<times> store) \<Rightarrow> store \<Rightarrow> store" where
  "store_after r db = (case r of Inl e \<Rightarrow> db | Inr (n, db') \<Rightarrow> db')"

subsection \<open>\<open>sync_flat_from_landing\<close>\<close>

text \<open>SQL's three-valued logic: \<open>None\<close> is the truth value unknown (NULL).\<close>

definition sql_gt :: "int option \<Rightarrow> int option \<Rightarrow> bool option" where
  "sql_gt a b =
     (case a of
        None \<Rightarrow> None
      | Some x \<Rightarrow> (case b of None \<Rightarrow> None | Some y \<Rightarrow> Some (y < x)))"

definition sql_and :: "bool option \<Rightarrow> bool option \<Rightarrow> bool option" where
  "sql_and a b =
     (if a = Some False \<or> b = Some False then Some False
      else if a = Some True \<and> b = Some True then Some True
      else None)"

definition sql_or :: "bool option \<Rightarrow> bool option \<Rightarrow> bool option" where
  "sql_or a b =
     (if a = Some True \<or> b = Some True then Some True
      else if a = Some False \<and> b = Some False then Some False
      else None)"

text \<open>
  A landing row \<open>l\<close> joined with the flat row of the same hash (\<open>LEFT JOIN\<close>: \<open>None\<close> when
  there is none, and then every column of \<open>f\<close> is NULL):
  \<^verbatim>\<open>
  WHERE f.hash IS NULL
     OR (l.lastrefresh IS NOT NULL AND l.lastrefresh > f.lastrefresh)
  \<close>
  A row is selected when the condition is true.
\<close>

definition where_clause :: "landing_row \<Rightarrow> flat_row option \<Rightarrow> bool option" where
  "where_clause l f =
     sql_or (Some (f = None))
       (sql_and (Some (l_lastrefresh l \<noteq> None))
          (sql_gt (l_lastrefresh l) (case f of None \<Rightarrow> None | Some fr \<Rightarrow> f_lastrefresh fr)))"

definition selected :: "landing_row \<Rightarrow> flat_row option \<Rightarrow> bool" where
  "selected l f = (where_clause l f = Some True)"

text \<open>\<^verbatim>\<open>l.raw->>'key'\<close>: NULL when the key is missing or its value is null.\<close>

definition arrow_text :: "engine \<Rightarrow> json \<Rightarrow> string \<Rightarrow> string option" where
  "arrow_text E raw key =
     (case raw of
        JObj kvs \<Rightarrow>
          (case map_of kvs key of
             None \<Rightarrow> None
           | Some JNull \<Rightarrow> None
           | Some (JStr s) \<Rightarrow> Some s
           | Some v \<Rightarrow> Some (jsonb_text E v))
      | _ \<Rightarrow> None)"

text \<open>\<^verbatim>\<open>NULLIF(x,'')::ty\<close>; the outer \<open>None\<close> is a failed cast.\<close>

definition nullif_cast :: "engine \<Rightarrow> sqltype \<Rightarrow> string option \<Rightarrow> sqlval option option" where
  "nullif_cast E ty x =
     (case x of
        None \<Rightarrow> Some None
      | Some s \<Rightarrow>
          if s = [] then Some None
          else (case cast_text E ty s of None \<Rightarrow> None | Some v \<Rightarrow> Some (Some v)))"

text \<open>The typed columns of the flat table: column, key of the raw document, type.\<close>

definition flat_columns :: "(string \<times> string \<times> sqltype) list" where
  "flat_columns =
     [(''disasternumber'', ''disasterNumber'', Smallint),
      (''declarationdate'', ''declarationDate'', Date),
      (''incidenttype'', ''incidentType'', Text),
      (''pwnumber'', ''pwNumber'', Integer),
      (''applicationtitle'', ''applicationTitle'', Text),
      (''applicantid'', ''applicantId'', Text),
      (''damagecategorycode'', ''damageCategoryCode'', Text),
      (''damagecategorydesc'', ''damageCategoryDescrip'', Text),
      (''projectstatus'', ''projectStatus'', Text),
      (''projectprocessstep'', ''projectProcessStep'', Text),
      (''projectsize'', ''projectSize'', Text),
      (''county'', ''county'', Text),
      (''countycode'', ''countyCode'', Text),
      (''stateabbr'', ''stateAbbreviation'', Text),
      (''statenumbercode'', ''stateNumberCode'', Text),
      (''projectamount'', ''projectAmount'', Numeric),
      (''federalshare'', ''federalShareObligated'', Numeric),
      (''totalobligated'', ''totalObligated'', Numeric),
      (''lastobligation'', ''lastObligationDate'', Timestamptz),
      (''firstobligation'', ''firstObligationDate'', Timestamptz),
      (''mitigationamount'', ''mitigationAmount'', Numeric),
      (''gmprojectid'', ''gmProjectId'', Bigint),
      (''gmapplicantid'', ''gmApplicantId'', Bigint)]"

fun project_columns ::
  "engine \<Rightarrow> json \<Rightarrow> (string \<times> string \<times> sqltype) list \<Rightarrow> (string \<times> sqlval option) list option" where
  "project_columns E raw [] = Some []"
| "project_columns E raw ((col, key, ty) # cols) =
     (case nullif_cast E ty (arrow_text E raw key) of
        None \<Rightarrow> None
      | Some v \<Rightarrow>
          (case project_columns E raw cols of
             None \<Rightarrow> None
           | Some vs \<Rightarrow> Some ((col, v) # vs)))"

text \<open>The \<^verbatim>\<open>SELECT\<close> list for one landing row.\<close>

definition project_row :: "engine \<Rightarrow> string \<times> landing_row \<Rightarrow> (string \<times> flat_row) option" where
  "project_row E kl =
     (case project_columns E (l_raw (snd kl)) flat_columns of
        None \<Rightarrow> None
      | Some vs \<Rightarrow>
          Some (fst kl,
                \<lparr>f_lastrefresh = l_lastrefresh (snd kl), f_columns = vs, f_raw = l_raw (snd kl)\<rparr>))"

fun project_rows :: "engine \<Rightarrow> (string \<times> landing_row) list \<Rightarrow> (string \<times> flat_row) list option" where
  "project_rows E [] = Some []"
| "project_rows E (kl # kls) =
     (case project_row E kl of
        None \<Rightarrow> None
      | Some r \<Rightarrow>
          (case project_rows E kls of
             None \<Rightarrow> None
           | Some rs \<Rightarrow> Some (r # rs)))"

text \<open>The landing rows the \<^verbatim>\<open>WHERE\<close> clause selects.\<close>

definition select_rows ::
  "(string \<times> landing_row) list \<Rightarrow> (string \<times> flat_row) list \<Rightarrow> (string \<times> landing_row) list" where
  "select_rows L F = filter (\<lambda>kl. selected (snd kl) (map_of F (fst kl))) L"

text \<open>
  \<^verbatim>\<open>INSERT INTO flat (...) SELECT ... ON CONFLICT (hash) DO UPDATE SET\<close> every column
  to the new value.
\<close>

definition merge_flat :: "(string \<times> flat_row) list \<Rightarrow> (string \<times> flat_row) list \<Rightarrow> (string \<times> flat_row) list" where
  "merge_flat rows F = fold (\<lambda>kr. AList.update (fst kr) (snd kr)) rows F"

text \<open>
  \<^verbatim>\<open>
  def sync_flat_from_landing():
      with ENGINE.begin() as c:
          res = c.execute(sql)
      return res.rowcount or 0
  \<close>
\<close>

definition sync_flat_from_landing :: "engine \<Rightarrow> store \<Rightarrow> error + (int \<times> store)" where
  "sync_flat_from_landing E db =
     (case project_rows E (select_rows (landing db) (flat db)) of
        None \<Rightarrow> Inl DBError
      | Some rows \<Rightarrow>
          Inr (int (length rows),
               db\<lparr>flat := merge_flat rows (flat db), writes := Suc (writes db)\<rparr>))"

section \<open>The paginated fetch: \<open>full_dump\<close> and \<open>incremental_from\<close>\<close>

text \<open>
  The two functions run the same loop and differ in the \<^verbatim>\<open>params\<close> of their requests:
  \<^verbatim>\<open>
  total, skip = 0, 0
  while True:
      params = {...}
      j = http_get(params)
      rows = j.get("PublicAssistanceFundedProjectsDetails", j if isinstance(j, list) else [])
      if not rows:
          break
      n = upsert_landing(rows)
      total += n
      skip += len(rows)
      if len(rows) < min(BATCH_SIZE, MAX_TOP):
          break
  return total
  \<close>
  The loop may run for ever (an endpoint that always answers with a full page), so the
  model counts pages: with no fuel left the result is \<open>None\<close>. An exception leaves the
  loop with the store as the pages merged before it made it. \<open>BATCH_SIZE\<close> is
  \<^verbatim>\<open>int(os.getenv("BATCH_SIZE", "1000"))\<close>, any integer.
\<close>

definition default_rows :: "json \<Rightarrow> json" where
  "default_rows j = (case j of JArr xs \<Rightarrow> j | _ \<Rightarrow> JArr [])"

fun fetch_pages ::
  "nat \<Rightarrow> world \<Rightarrow> engine \<Rightarrow> int \<Rightarrow> (int \<Rightarrow> params) \<Rightarrow> int \<Rightarrow> int \<Rightarrow> io \<Rightarrow> store
     \<Rightarrow> (error + int) option \<times> io \<times> store" where
  "fetch_pages 0 W E BATCH_SIZE mk total' skip s db = (None, s, db)"
| "fetch_pages (Suc fuel) W E BATCH_SIZE mk total' skip s db =
     (case http_get W (mk skip) s of
        (Inl e, s1) \<Rightarrow> (Some (Inl e), s1, db)
      | (Inr j, s1) \<Rightarrow>
          (case py_get_default j ''PublicAssistanceFundedProjectsDetails'' (default_rows j) of
             Inl e \<Rightarrow> (Some (Inl e), s1, db)
           | Inr rows \<Rightarrow>
               if \<not> truthy rows then (Some (Inr total'), s1, db)
               else
                 (case py_iter rows of
                    Inl e \<Rightarrow> (Some (Inl e), s1, db)
                  | Inr objs \<Rightarrow>
                      (case upsert_landing E objs db of
                         Inl e \<Rightarrow> (Some (Inl e), s1, db)
                       | Inr (n, db1) \<Rightarrow>
                           (case py_len rows of
                              Inl e \<Rightarrow> (Some (Inl e), s1, db1)
                            | Inr len \<Rightarrow>
                                if len < min BATCH_SIZE MAX_TOP then (Some (Inr (total' + n)), s1, db1)
                                else fetch_pages fuel W E BATCH_SIZE mk (total' + n) (skip + len) s1 db1)))))"

text \<open>\<^verbatim>\<open>params = {"$skip": skip, "$top": min(BATCH_SIZE, MAX_TOP)}\<close>\<close>

definition full_dump_params :: "int \<Rightarrow> int \<Rightarrow> params" where
  "full_dump_params BATCH_SIZE skip =
     \<lparr>p_skip = skip, p_top = min BATCH_SIZE MAX_TOP, p_orderby = None, p_filter = None\<rparr>"

text \<open>
  \<^verbatim>\<open>
  params = {"$skip": skip, "$top": min(BATCH_SIZE, MAX_TOP),
            "$orderby": "lastRefresh", "$filter": f"lastRefresh ge {watermark_iso}"}
  \<close>
\<close>

definition incremental_params :: "int \<Rightarrow> string \<Rightarrow> int \<Rightarrow> params" where
  "incremental_params BATCH_SIZE watermark_iso skip =
     \<lparr>p_skip = skip, p_top = min BATCH_SIZE MAX_TOP,
      p_orderby = Some ''lastRefresh'', p_filter = Some (''lastRefresh ge '' @ watermark_iso)\<rparr>"

definition full_dump ::
  "nat \<Rightarrow> world \<Rightarrow> engine \<Rightarrow> int \<Rightarrow> io \<Rightarrow> store \<Rightarrow> (error + int) option \<times> io \<times> store" where
  "full_dump fuel W E BATCH_SIZE s db =
     fetch_pages fuel W E BATCH_SIZE (full_dump_params BATCH_SIZE) 0 0 s db"

definition incremental_from ::
  "nat \<Rightarrow> world \<Rightarrow> engine \<Rightarrow> int \<Rightarrow> string \<Rightarrow> io \<Rightarrow> store \<Rightarrow> (error + int) option \<times> io \<times> store" where
  "incremental_from fuel W E BATCH_SIZE watermark_iso s db =
     fetch_pages fuel W E BATCH_SIZE (incremental_params BATCH_SIZE watermark_iso) 0 0 s db"

section \<open>The watermark\<close>

text \<open>
  A Python \<^verbatim>\<open>datetime\<close>: its fields, and its offset from UTC in seconds (\<open>None\<close> for a
  naive value). The driver returns a \<open>timestamptz\<close> as an aware \<^verbatim>\<open>datetime\<close> in the time
  zone of the session.
\<close>

record datetime =
  year :: nat
  month :: nat
  day :: nat
  hour :: nat
  minute :: nat
  second :: nat
  microsecond :: nat
  utcoffset :: "int option"

text \<open>
  \<^verbatim>\<open>"%0wd" % n\<close>: the decimal digits of \<open>n\<close>, padded with zeros to the width \<open>w\<close>.
  \<open>digit_char\<close> is only ever applied to a number below 10.
\<close>

definition digit_char :: "nat \<Rightarrow> char" where
  "digit_char n = ''0123456789'' ! n"

fun decimal :: "nat \<Rightarrow> string" where
  "decimal n = (if n < 10 then [digit_char n] else decimal (n div 10) @ [digit_char (n mod 10)])"

declare decimal.simps [simp del]

definition zero_pad :: "nat \<Rightarrow> nat \<Rightarrow> string" where
  "zero_pad w n = replicate (w - length (decimal n)) (CHR ''0'') @ decimal n"

text \<open>
  The offset as \<^verbatim>\<open>isoformat\<close> prints it: sign, hours and minutes, and the seconds when
  there are any.
\<close>

definition format_offset :: "int \<Rightarrow> string" where
  "format_offset off =
     (let a = nat \<bar>off\<bar>
      in (if off < 0 then ''-'' else ''+'')
         @ zero_pad 2 (a div 3600) @ '':'' @ zero_pad 2 (a mod 3600 div 60)
         @ (if a mod 60 \<noteq> 0 then '':'' @ zero_pad 2 (a mod 60) else []))"

text \<open>\<^verbatim>\<open>d.isoformat()\<close>: the fraction is printed only when the microseconds are not 0.\<close>

definition isoformat :: "datetime \<Rightarrow> string" where
  "isoformat d =
     zero_pad 4 (year d) @ ''-'' @ zero_pad 2 (month d) @ ''-'' @ zero_pad 2 (day d)
     @ ''T'' @ zero_pad 2 (hour d) @ '':'' @ zero_pad 2 (minute d) @ '':'' @ zero_pad 2 (second d)
     @ (if microsecond d \<noteq> 0 then ''.'' @ zero_pad 6 (microsecond d) else [])
     @ (case utcoffset d of None \<Rightarrow> [] | Some off \<Rightarrow> format_offset off)"

text \<open>
  \<^verbatim>\<open>s.replace(old, new)\<close>: every occurrence of \<open>old\<close>, leftmost first, without overlap.
  With an empty \<open>old\<close> Python puts \<open>new\<close> around every character.
\<close>

function replace_from :: "string \<Rightarrow> string \<Rightarrow> string \<Rightarrow> string" where
  "replace_from old new [] = []"
| "replace_from old new (c # s) =
     (if old \<noteq> [] \<and> take (length old) (c # s) = old
      then new @ replace_from old new (drop (length old) (c # s))
      else c # replace_from old new s)"
  by pat_completeness auto
termination
  by (relation "measure (\<lambda>(old, new, s). length s)") (auto simp: Suc_le_eq)

definition str_replace :: "string \<Rightarrow> string \<Rightarrow> string \<Rightarrow> string" where
  "str_replace old new s =
     (if old = [] then new @ concat (map (\<lambda>c. c # new) s) else replace_from old new s)"

text \<open>\<^verbatim>\<open>f"'{x}'"\<close>: the text between two single quotes.\<close>

definition quoted :: "string \<Rightarrow> string" where
  "quoted x = CHR 0x27 # x @ [CHR 0x27]"

definition iso_quoted :: "datetime \<Rightarrow> string" where
  "iso_quoted d = quoted (str_replace ''+00:00'' ''Z'' (isoformat d))"

text \<open>
  \<^verbatim>\<open>
  def today_midnight_iso_quoted():
      t0 = datetime.now(timezone.utc).replace(hour=0, minute=0, second=0, microsecond=0)
      return f"'{t0.isoformat().replace('+00:00','Z')}'"
  \<close>
  \<open>now\<close> is the value of \<^verbatim>\<open>datetime.now(timezone.utc)\<close>; its offset is 0.
\<close>

definition today_start :: "datetime \<Rightarrow> datetime" where
  "today_start now = now\<lparr>hour := 0, minute := 0, second := 0, microsecond := 0\<rparr>"

definition today_midnight_iso_quoted :: "datetime \<Rightarrow> string" where
  "today_midnight_iso_quoted now = iso_quoted (today_start now)"

text \<open>
  \<^verbatim>\<open>SELECT MAX(lastrefresh) FROM landing\<close>: the greatest of the values that are not
  null, NULL when there is none. \<open>timestamptz_out\<close> is the driver's conversion of the
  instant to a \<^verbatim>\<open>datetime\<close>.
\<close>

definition sql_max :: "int option list \<Rightarrow> int option" where
  "sql_max xs =
     fold (\<lambda>x acc. case x of
                      None \<Rightarrow> acc
                    | Some t \<Rightarrow> (case acc of None \<Rightarrow> Some t | Some a \<Rightarrow> Some (max a t)))
       xs None"

definition db_watermark :: "(int \<Rightarrow> datetime) \<Rightarrow> store \<Rightarrow> datetime option" where
  "db_watermark timestamptz_out db =
     map_option timestamptz_out (sql_max (map (\<lambda>kl. l_lastrefresh (snd kl)) (landing db)))"

text \<open>
  The watermark of \<open>run_cycle\<close>:
  \<^verbatim>\<open>
  db_wm = db_watermark()  # datetime or None
  today_q = today_midnight_iso_quoted()
  if db_wm:
      # use DB watermark, but don't go earlier than today midnight
      db_iso_q = f"'{db_wm.isoformat().replace('+00:00','Z')}'"
      wm_q = max(db_iso_q, today_q)  # string comparison works since both quoted ISO (same length)
  else:
      wm_q = today_q
  \<close>
  A \<^verbatim>\<open>datetime\<close> is always true. \<open>max\<close> on strings is the lexicographic order of their
  characters.
\<close>

definition run_cycle_watermark :: "datetime option \<Rightarrow> datetime \<Rightarrow> string" where
  "run_cycle_watermark db_wm now =
     (let today_q = today_midnight_iso_quoted now
      in case db_wm of
           Some d \<Rightarrow> max (iso_quoted d) today_q
         | None \<Rightarrow> today_q)"

subsection \<open>The instant of a \<^verbatim>\<open>datetime\<close>, and the resolver of the specification\<close>

text \<open>
  The instant a \<^verbatim>\<open>datetime\<close> denotes, in microseconds since the midnight (UTC) before 0001-01-01, by the
  proleptic Gregorian calendar as Python's \<^verbatim>\<open>datetime\<close> counts days. A naive value is
  read as UTC.
\<close>

definition is_leap :: "nat \<Rightarrow> bool" where
  "is_leap y \<longleftrightarrow> y mod 4 = 0 \<and> (y mod 100 \<noteq> 0 \<or> y mod 400 = 0)"

definition days_before_year :: "nat \<Rightarrow> nat" where
  "days_before_year y = (y - 1) * 365 + (y - 1) div 4 - (y - 1) div 100 + (y - 1) div 400"

definition days_in_month :: "nat \<Rightarrow> nat \<Rightarrow> nat" where
  "days_in_month y m =
     (if m = 2 then (if is_leap y then 29 else 28)
      else if m = 4 \<or> m = 6 \<or> m = 9 \<or> m = 11 then 30
      else 31)"

fun days_before_month :: "nat \<Rightarrow> nat \<Rightarrow> nat" where
  "days_before_month y 0 = 0"
| "days_before_month y (Suc 0) = 0"
| "days_before_month y (Suc (Suc m)) = days_before_month y (Suc m) + days_in_month y (Suc m)"

definition ymd2ord :: "nat \<Rightarrow> nat \<Rightarrow> nat \<Rightarrow> nat" where
  "ymd2ord y m d = days_before_year y + days_before_month y m + d"

definition instant :: "datetime \<Rightarrow> int" where
  "instant d =
     (((int (ymd2ord (year d) (month d) (day d)) * 24 + int (hour d)) * 60 + int (minute d)) * 60
        + int (second d)
        - (case utcoffset d of None \<Rightarrow> 0 | Some off \<Rightarrow> off)) * 1000000
     + int (microsecond d)"

definition valid_datetime :: "datetime \<Rightarrow> bool" where
  "valid_datetime d \<longleftrightarrow>
     1 \<le> year d \<and> year d \<le> 9999 \<and> 1 \<le> month d \<and> month d \<le> 12
     \<and> 1 \<le> day d \<and> day d \<le> days_in_month (year d) (month d)
     \<and> hour d < 24 \<and> minute d < 60 \<and> second d < 60 \<and> microsecond d < 1000000"

text \<open>
  Section 4.4 of the specification, word for word: \<open>todayStart\<close> when \<open>dbMax\<close> is null,
  otherwise \<open>max(dbMax, todayStart)\<close>, the comparison being one of timestamps; the
  result is returned as the quoted ISO string of the value chosen.
\<close>

definition spec_watermark :: "datetime option \<Rightarrow> datetime \<Rightarrow> string" where
  "spec_watermark db_max now =
     (case db_max of
        None \<Rightarrow> iso_quoted (today_start now)
      | Some d \<Rightarrow>
          if instant (today_start now) < instant d then iso_quoted d
          else iso_quoted (today_start now))"

text \<open>Sample times: 2025-03-10, 08:30 UTC, and three stored maxima.\<close>

definition march_10_0830 :: datetime where
  "march_10_0830 =
     \<lparr>year = 2025, month = 3, day = 10, hour = 8, minute = 30, second = 0, microsecond = 0,
      utcoffset = Some 0\<rparr>"

definition march_10_half_past_midnight :: datetime where
  "march_10_half_past_midnight =
     \<lparr>year = 2025, month = 3, day = 10, hour = 0, minute = 0, second = 0, microsecond = 500000,
      utcoffset = Some 0\<rparr>"

definition march_10_0100_plus5 :: datetime where
  "march_10_0100_plus5 =
     \<lparr>year = 2025, month = 3, day = 10, hour = 1, minute = 0, second = 0, microsecond = 0,
      utcoffset = Some 18000\<rparr>"

definition june_2024 :: datetime where
  "june_2024 =
     \<lparr>year = 2024, month = 6, day = 1, hour = 0, minute = 0, second = 0, microsecond = 0,
      utcoffset = Some 0\<rparr>"

section \<open>The vocabulary of the claims\<close>

text \<open>
  A response that is not worth a retry: a client error (4xx) other than 429, or a
  response that is no error by its status and whose body is malformed. Such a response
  makes \<open>raise_for_status\<close> or \<open>r.json()\<close> raise \<open>response_error\<close>.
\<close>

definition non_retryable :: "response \<Rightarrow> bool" where
  "non_retryable r \<longleftrightarrow>
     status_code r \<noteq> 429 \<and> status_code r \<noteq> 503 \<and> status_code r < 500
     \<and> (400 \<le> status_code r \<or> body r = None)"

definition response_error :: "response \<Rightarrow> error" where
  "response_error r =
     (if 400 \<le> status_code r then HTTPError (status_code r) else JSONDecodeError)"

text \<open>
  A transient failure of one attempt: a network-level exception, HTTP 429 or 503, or a
  status of 500 or more.
\<close>

definition transient :: "outcome \<Rightarrow> bool" where
  "transient out =
     (case out of
        Raises \<Rightarrow> True
      | Returns r \<Rightarrow> status_code r = 429 \<or> status_code r = 503 \<or> 500 \<le> status_code r)"

text \<open>The requests of a trace, and the requests a run from \<open>s\<close> to \<open>s'\<close> has sent.\<close>

fun requests :: "event list \<Rightarrow> params list" where
  "requests [] = []"
| "requests (Request p # es) = p # requests es"
| "requests (Sleep d # es) = requests es"

definition issued :: "io \<Rightarrow> io \<Rightarrow> params list" where
  "issued s s' = requests (drop (length (trace s)) (trace s'))"

definition extends :: "io \<Rightarrow> io \<Rightarrow> params list \<Rightarrow> bool" where
  "extends s s' ps \<longleftrightarrow> (\<exists>new. trace s' = trace s @ new \<and> requests new = ps)"

text \<open>
  A record (a dict) without a usable hash: the key is missing, or its value is None,
  empty or otherwise false. \<open>has_hash\<close> is the opposite for a dict; a value that is not
  a dict is neither.
\<close>

definition lacks_hash :: "json \<Rightarrow> bool" where
  "lacks_hash obj = (case py_get obj ''hash'' of Inl e \<Rightarrow> False | Inr h \<Rightarrow> \<not> truthy h)"

definition has_hash :: "json \<Rightarrow> bool" where
  "has_hash obj = (case py_get obj ''hash'' of Inl e \<Rightarrow> False | Inr h \<Rightarrow> truthy h)"

text \<open>Every document of the landing table and of the flat table carries a hash.\<close>

definition hash_gated :: "store \<Rightarrow> bool" where
  "hash_gated db \<longleftrightarrow>
     list_all (\<lambda>kl. has_hash (l_raw (snd kl))) (landing db)
     \<and> list_all (\<lambda>kf. has_hash (f_raw (snd kf))) (flat db)"

text \<open>Merging a record sequence once, and \<open>N\<close> times in a row.\<close>

definition merge_once :: "engine \<Rightarrow> json list \<Rightarrow> store \<Rightarrow> store" where
  "merge_once E rows db = store_after (upsert_landing E rows db) db"

definition merge_times :: "engine \<Rightarrow> json list \<Rightarrow> nat \<Rightarrow> store \<Rightarrow> store" where
  "merge_times E rows N db = ((merge_once E rows) ^^ N) db"

text \<open>
  "Keep the newer non-null value", as section 3 of the specification words the merge
  of \<open>last_refresh\<close>.
\<close>

definition newer_non_null :: "int option \<Rightarrow> int option \<Rightarrow> int option" where
  "newer_non_null a b =
     (case a of
        None \<Rightarrow> b
      | Some x \<Rightarrow> (case b of None \<Rightarrow> Some x | Some y \<Rightarrow> Some (max x y)))"

section \<open>Sample inputs\<close>

text \<open>A world whose every jitter is one half and whose endpoint is unreachable.\<close>

definition half_jitter :: world where
  "half_jitter = \<lparr>server = (\<lambda>n p. Raises), jitter = (\<lambda>n. 1 / 2)\<rparr>"

definition io0 :: io where
  "io0 = \<lparr>calls = 0, draws = 0, trace = []\<rparr>"

text \<open>An endpoint that answers every request with 404, and one that answers with 503.\<close>

definition not_found :: world where
  "not_found =
     \<lparr>server = (\<lambda>n p. Returns \<lparr>status_code = 404, retry_after_hdr = NoHeader, body = None\<rparr>),
      jitter = (\<lambda>n. 1 / 2)\<rparr>"


definition page0 :: params where
  "page0 = \<lparr>p_skip = 0, p_top = 1000, p_orderby = None, p_filter = None\<rparr>"

text \<open>
  A database engine that reads two timestamps, 2024-01-01 and 2024-06-01 at 00:00 UTC
  (as microseconds since 1970), and no other; it stores a column's text as it is.
\<close>

definition two_dates :: engine where
  "two_dates =
     \<lparr>adapt_text = (\<lambda>j. None),
      timestamptz_in = (\<lambda>s.
        if s = ''2024-01-01T00:00:00Z'' then Some 1704067200000000
        else if s = ''2024-06-01T00:00:00Z'' then Some 1717200000000000
        else None),
      jsonb_text = (\<lambda>j. []),
      cast_text = (\<lambda>ty s. Some (SqlText s))\<rparr>"

definition empty_store :: store where
  "empty_store = \<lparr>landing = [], flat = [], writes = 0\<rparr>"

definition rec_june :: json where
  "rec_june = JObj [(''hash'', JStr ''X''), (''lastRefresh'', JStr ''2024-06-01T00:00:00Z'')]"

definition rec_january :: json where
  "rec_january = JObj [(''hash'', JStr ''X''), (''lastRefresh'', JStr ''2024-01-01T00:00:00Z'')]"

definition rec_undated :: json where
  "rec_undated = JObj [(''hash'', JStr ''X''), (''county'', JStr ''Kent'')]"

definition rec_no_hash :: json where
  "rec_no_hash = JObj [(''hash'', JStr []), (''county'', JStr ''Kent'')]"

text \<open>The landing table after \<open>rec_june\<close> has been merged into the empty store.\<close>

definition june_store :: store where
  "june_store =
     \<lparr>landing = [(''X'', \<lparr>l_raw = rec_june, l_lastrefresh = Some 1717200000000000\<rparr>)],
      flat = [], writes = 1\<rparr>"

text \<open>
  The stores of a run of the program on the empty store: a record without
  \<open>lastRefresh\<close> is merged and projected, then the same hash arrives with a timestamp.
\<close>

definition undated_landed :: store where
  "undated_landed = store_after (upsert_landing two_dates [rec_undated] empty_store) empty_store"

definition undated_projected :: store where
  "undated_projected = store_after (sync_flat_from_landing two_dates undated_landed) undated_landed"

definition dated_landed :: store where
  "dated_landed =
     store_after (upsert_landing two_dates [rec_june] undated_projected) undated_projected"

section \<open>Tools for the proofs\<close>

text \<open>
  The statement of \<open>upsert_row\<close> on the bound values of one parameter set: the key, the
  document and the timestamp. \<open>at_key\<close> is what a list of them does to one key.
\<close>

definition lr_of :: "landing_row option \<Rightarrow> int option" where
  "lr_of x = (case x of None \<Rightarrow> None | Some r \<Rightarrow> l_lastrefresh r)"

definition put ::
  "string \<times> json \<times> int option \<Rightarrow> (string \<times> landing_row) list \<Rightarrow> (string \<times> landing_row) list" where
  "put b L =
     AList.update (fst b)
       \<lparr>l_raw = fst (snd b), l_lastrefresh = coalesce (snd (snd b)) (lr_of (map_of L (fst b)))\<rparr> L"

definition bound_item :: "engine \<Rightarrow> payload_item \<Rightarrow> (string \<times> json \<times> int option) option" where
  "bound_item E it =
     (case bind_hash E (pl_hash it) of
        None \<Rightarrow> None
      | Some k \<Rightarrow>
          (case bind_lastrefresh E (pl_lastrefresh it) of
             None \<Rightarrow> None
           | Some lr \<Rightarrow> Some (k, pl_raw it, lr)))"

fun at_key ::
  "(string \<times> json \<times> int option) list \<Rightarrow> string \<Rightarrow> landing_row option \<Rightarrow> landing_row option" where
  "at_key [] k x = x"
| "at_key (b # bs) k x =
     at_key bs k
       (if fst b = k
        then Some \<lparr>l_raw = fst (snd b), l_lastrefresh = coalesce (snd (snd b)) (lr_of x)\<rparr>
        else x)"

definition land_fun ::
  "engine \<Rightarrow> json list \<Rightarrow> (string \<times> landing_row) list \<Rightarrow> (string \<times> landing_row) list" where
  "land_fun E rows L =
     (case build_payload rows of
        Inl e \<Rightarrow> L
      | Inr pl \<Rightarrow>
          (case those (map (bound_item E) pl) of
             None \<Rightarrow> L
           | Some bs \<Rightarrow> fold put bs L))"

text \<open>The last \<open>w\<close> decimal digits of \<open>n\<close>; for \<open>n < 10^w\<close> this is \<open>zero_pad w n\<close>.\<close>

fun fixed :: "nat \<Rightarrow> nat \<Rightarrow> string" where
  "fixed 0 n = []"
| "fixed (Suc w) n = fixed w (n div 10) @ [digit_char (n mod 10)]"

text \<open>The fields that order two timestamps of the same format.\<close>

definition sort_key :: "datetime \<Rightarrow> nat list" where
  "sort_key d = [year d, month d, day d, hour d, minute d, second d]"

text \<open>The date and the time of day of the ISO text, before any fraction and offset.\<close>

definition iso_prefix :: "datetime \<Rightarrow> string" where
  "iso_prefix d =
     fixed 4 (year d) @ ''-'' @ fixed 2 (month d) @ ''-'' @ fixed 2 (day d) @ ''T''
     @ fixed 2 (hour d) @ '':'' @ fixed 2 (minute d) @ '':'' @ fixed 2 (second d)"

text \<open>The seconds of a timestamp since day 0, without its offset.\<close>

definition seconds_of :: "datetime \<Rightarrow> nat" where
  "seconds_of d =
     ((ymd2ord (year d) (month d) (day d) * 24 + hour d) * 60 + minute d) * 60 + second d"

section \<open>Claim C7: the backoff delay\<close>

lemma sleep_backoff_hint:
  "0 < h \<Longrightarrow> sleep_backoff W a (Some h) s = (Inr (), s\<lparr>trace := trace s @ [Sleep (real_of_int h)]\<rparr>)"
  by (simp add: sleep_backoff_def time_sleep_def)

lemma sleep_backoff_computed:
  assumes "hint = None \<or> hint = Some 0" and "0 \<le> jitter W (draws s)"
  shows "sleep_backoff W a hint s =
    (Inr (), s\<lparr>draws := Suc (draws s),
                trace := trace s @ [Sleep (min 60 (2 ^ a + jitter W (draws s)))]\<rparr>)"
proof -
  have "0 \<le> min 60 (2 ^ a + jitter W (draws s))"
    using assms(2) by (simp add: min_def)
  then show ?thesis
    using assms(1) by (auto simp: sleep_backoff_def time_sleep_def random_uniform_def)
qed

text \<open>
  C7 (as the code has it). With a positive server hint the delay slept is the hint,
  verbatim. With no hint, or the hint 0, and a jitter \<open>j\<close> in \<open>[0, 1)\<close>, the delay slept
  is \<open>min(60, 2^attempt + j)\<close>: the cap of 60 seconds is applied after the jitter is
  added, so the delay never exceeds 60. For the attempts 1 to 5 that \<open>http_get\<close> makes
  the sum stays below the cap, and the delay is also \<open>min(60, 2^attempt) + j\<close>.
\<close>

theorem C7_backoff_delay:
  "(0 < h \<longrightarrow> slept (sleep_backoff W attempt (Some h) s) = Some (real_of_int h))
   \<and> ((hint = None \<or> hint = Some 0) \<and> 0 \<le> jitter W (draws s) \<and> jitter W (draws s) < 1 \<longrightarrow>
        slept (sleep_backoff W attempt hint s) = Some (min 60 (2 ^ attempt + jitter W (draws s)))
        \<and> min 60 (2 ^ attempt + jitter W (draws s)) \<le> 60
        \<and> (attempt \<le> 5 \<longrightarrow>
             slept (sleep_backoff W attempt hint s) = Some (spec_next_delay attempt hint (jitter W (draws s)))))"
proof (intro conjI impI)
  assume "0 < h"
  then show "slept (sleep_backoff W attempt (Some h) s) = Some (real_of_int h)"
    by (simp add: sleep_backoff_hint slept_def)
next
  assume a: "(hint = None \<or> hint = Some 0) \<and> 0 \<le> jitter W (draws s) \<and> jitter W (draws s) < 1"
  then show c: "slept (sleep_backoff W attempt hint s) = Some (min 60 (2 ^ attempt + jitter W (draws s)))"
    by (simp add: sleep_backoff_computed slept_def)
  show "min 60 (2 ^ attempt + jitter W (draws s)) \<le> 60"
    by simp
  assume le: "attempt \<le> 5"
  have "(2::real) ^ attempt \<le> 2 ^ 5"
    using le by (intro power_increasing) simp_all
  then have "(2::real) ^ attempt \<le> 32"
    by simp
  then have "min 60 (2 ^ attempt + jitter W (draws s)) = min 60 (2 ^ attempt) + jitter W (draws s)"
    using a by (simp add: min_def)
  then show "slept (sleep_backoff W attempt hint s) = Some (spec_next_delay attempt hint (jitter W (draws s)))"
    using a c by (auto simp: spec_next_delay_def)
qed

theorem C7_cap_after_jitter_counterexample:
  "slept (sleep_backoff half_jitter 6 None io0) = Some 60
   \<and> spec_next_delay 6 None (jitter half_jitter (draws io0)) = 60 + 1 / 2"
  by (simp add: sleep_backoff_def time_sleep_def random_uniform_def slept_def
      spec_next_delay_def half_jitter_def io0_def)

theorem C7_backoff_delay_witness:
  "slept (sleep_backoff half_jitter 3 (Some 10) io0) = Some 10
   \<and> slept (sleep_backoff half_jitter 3 None io0) = Some (8 + 1 / 2)
   \<and> slept (sleep_backoff half_jitter 3 None io0) = Some (spec_next_delay 3 None (1 / 2))"
proof -
  have j: "jitter half_jitter (draws io0) = 1 / 2"
    by (simp add: half_jitter_def)
  note inst = C7_backoff_delay [of 10 half_jitter 3 io0 None]
  have a: "slept (sleep_backoff half_jitter 3 (Some 10) io0) = Some 10"
    using inst by simp
  have b: "slept (sleep_backoff half_jitter 3 None io0) = Some (8 + 1 / 2)"
    using inst j by (simp add: spec_next_delay_def)
  have c: "slept (sleep_backoff half_jitter 3 None io0) = Some (spec_next_delay 3 None (1 / 2))"
    using inst j by (simp add: spec_next_delay_def)
  show ?thesis
    using a b c by blast
qed

section \<open>What one page request sends\<close>

lemma requests_append: "requests (xs @ ys) = requests xs @ requests ys"
  by (induction xs rule: requests.induct) simp_all

lemma extends_refl: "extends s s []"
  by (simp add: extends_def)

lemma extends_trans: "extends s s1 ps \<Longrightarrow> extends s1 s2 qs \<Longrightarrow> extends s s2 (ps @ qs)"
  by (auto simp: extends_def requests_append)

lemma extends_issued: "extends s s' ps \<Longrightarrow> issued s s' = ps"
  by (auto simp: extends_def issued_def)

lemma time_sleep_io:
  "time_sleep d (s::io) = (x, s') \<Longrightarrow> calls s' = calls s \<and> extends s s' []"
  by (auto simp: time_sleep_def extends_def split: if_splits)

lemma sleep_backoff_io:
  assumes "sleep_backoff W a ra (s::io) = (x, s')"
  shows "calls s' = calls s \<and> extends s s' []"
proof -
  have r: "extends s (s\<lparr>draws := Suc (draws s)\<rparr>) []"
    by (simp add: extends_def)
  show ?thesis
    using assms extends_trans [OF r, of s' "[]"]
    by (auto simp: sleep_backoff_def random_uniform_def split: option.splits if_splits
        dest!: time_sleep_io)
qed

lemma session_get_io:
  "session_get W p (s::io) = (x, s') \<Longrightarrow> calls s' = Suc (calls s) \<and> extends s s' [p]"
  by (auto simp: session_get_def extends_def)

lemma try_body_io:
  assumes "try_body W p a (s::io) = (x, s')"
  shows "calls s' = Suc (calls s) \<and> extends s s' [p]"
proof -
  obtain out s1 where sg: "session_get W p s = (out, s1)"
    by (cases "session_get W p s")
  then have s1: "calls s1 = Suc (calls s)" "extends s s1 [p]"
    using session_get_io by blast+
  have step: "\<And>ra y s2. sleep_backoff W a ra s1 = (y, s2) \<Longrightarrow>
      calls s2 = Suc (calls s) \<and> extends s s2 [p]"
    using s1 extends_trans [OF s1(2)] by (fastforce dest: sleep_backoff_io)
  show ?thesis
  proof (cases out)
    case Raises
    then show ?thesis using assms sg s1 by (simp add: try_body_def)
  next
    case (Returns r)
    then show ?thesis
      using assms sg s1 step
      by (auto simp: try_body_def split: if_splits sum.splits prod.splits)
  qed
qed

text \<open>Every request of one \<open>http_get\<close> is the page request it was called with.\<close>

lemma http_get_from_io:
  "http_get_from W p a (s::io) = (x, s') \<Longrightarrow>
   calls s \<le> calls s' \<and> (\<exists>ps. extends s s' ps \<and> set ps \<subseteq> {p})"
proof (induction "Suc MAX_RETRIES - a" arbitrary: a s x s')
  case 0
  then have "MAX_RETRIES < a" by simp
  then show ?case
    using "0.prems" extends_refl [of s] by (subst (asm) http_get_from.simps) auto
next
  case (Suc n)
  then have a: "\<not> MAX_RETRIES < a" and n: "n = Suc MAX_RETRIES - Suc a" by auto
  obtain r1 s1 where tb: "try_body W p a s = (r1, s1)" by (cases "try_body W p a s")
  then have s1: "calls s1 = Suc (calls s)" "extends s s1 [p]"
    using try_body_io by blast+
  have rec: "\<And>s0 y t. calls s \<le> calls s0 \<Longrightarrow> extends s s0 [p] \<Longrightarrow>
      http_get_from W p (Suc a) s0 = (y, t) \<Longrightarrow>
      calls s \<le> calls t \<and> (\<exists>ps. extends s t ps \<and> set ps \<subseteq> {p})"
  proof -
    fix s0 :: io and y t
    assume c: "calls s \<le> calls s0" and e: "extends s s0 [p]"
      and h: "http_get_from W p (Suc a) s0 = (y, t)"
    from Suc.hyps(1) [OF n h] obtain ps where
      "calls s0 \<le> calls t" "extends s0 t ps" "set ps \<subseteq> {p}"
      by auto
    then show "calls s \<le> calls t \<and> (\<exists>ps. extends s t ps \<and> set ps \<subseteq> {p})"
      using c extends_trans [OF e, of t ps] by (auto intro!: exI [of _ "[p] @ ps"])
  qed
  have here: "calls s \<le> calls s1 \<and> (\<exists>ps. extends s s1 ps \<and> set ps \<subseteq> {p})"
    using s1 by (auto intro!: exI [of _ "[p]"])
  show ?case
  proof (cases r1)
    case (Inr st)
    then show ?thesis
      using Suc.prems a tb here rec [of s1] s1
      by (subst (asm) http_get_from.simps) (auto split: step.splits)
  next
    case (Inl e)
    obtain r2 s2 where sb: "sleep_backoff W a None s1 = (r2, s2)"
      by (cases "sleep_backoff W a None s1")
    then have s2: "calls s2 = calls s1" "extends s1 s2 []"
      using sleep_backoff_io by blast+
    have e2: "extends s s2 [p]"
      using extends_trans [OF s1(2) s2(2)] by simp
    have here2: "calls s \<le> calls s2 \<and> (\<exists>ps. extends s s2 ps \<and> set ps \<subseteq> {p})"
      using s1 s2 e2 by (auto intro!: exI [of _ "[p]"])
    show ?thesis
      using Suc.prems a tb Inl sb here here2 rec [of s2] s1 s2 e2
      by (subst (asm) http_get_from.simps) (auto split: if_splits sum.splits)
  qed
qed

lemma fetch_pages_io:
  assumes "fetch_pages fuel W E B mk tot skip (s::io) db = (x, s', db')"
  shows "\<exists>ps. extends s s' ps \<and> set ps \<subseteq> range mk"
  using assms
proof (induction fuel arbitrary: tot skip s db x s' db')
  case 0
  then show ?case using extends_refl [of s] by auto
next
  case (Suc fuel)
  obtain r s1 where hg: "http_get W (mk skip) s = (r, s1)"
    by (cases "http_get W (mk skip) s")
  then obtain ps where ps: "extends s s1 ps" "set ps \<subseteq> {mk skip}"
    using http_get_from_io [of W "mk skip" 1 s r s1] by (auto simp: http_get_def)
  then have here: "\<exists>ps. extends s s1 ps \<and> set ps \<subseteq> range mk"
    by (intro exI [of _ ps]) auto
  have rec: "\<And>tot skip db x. fetch_pages fuel W E B mk tot skip s1 db = (x, s', db') \<Longrightarrow>
     \<exists>ps. extends s s' ps \<and> set ps \<subseteq> range mk"
  proof -
    fix tot skip db x
    assume "fetch_pages fuel W E B mk tot skip s1 db = (x, s', db')"
    from Suc.IH [OF this] obtain qs where "extends s1 s' qs" "set qs \<subseteq> range mk" by auto
    then show "\<exists>ps. extends s s' ps \<and> set ps \<subseteq> range mk"
      using ps extends_trans [OF ps(1), of s' qs] by (intro exI [of _ "ps @ qs"]) auto
  qed
  show ?case
    using Suc.prems hg here rec
    by (auto split: sum.splits if_splits prod.splits)
qed

section \<open>Claim C3: an error that is not worth a retry\<close>

lemma try_body_non_retryable:
  assumes "server W (calls s) p = Returns r" and "non_retryable r"
  shows "try_body W p attempt s =
    (Inl (response_error r), s\<lparr>calls := Suc (calls s), trace := trace s @ [Request p]\<rparr>)"
  using assms
  by (auto simp: try_body_def session_get_def non_retryable_def response_error_def
      raise_for_status_def response_json_def)

text \<open>
  C3 (as the code has it). The handler \<^verbatim>\<open>except Exception\<close> catches the HTTPError of
  \<open>raise_for_status\<close> and the decoding error of \<open>r.json()\<close> like any other exception.
  When the answer to an attempt is a client error (4xx other than 429) or a malformed
  body, then on the attempts 1 to 4 the code sleeps \<open>min(60, 2^attempt + jitter)\<close>
  seconds and sends the same request again; only on attempt 5 does the error leave
  \<open>http_get\<close>, with no sleep after it.
\<close>

theorem C3_non_retryable_is_retried:
  "server W (calls s) p = Returns r \<and> non_retryable r \<and> 0 \<le> jitter W (draws s) \<longrightarrow>
   (attempt < MAX_RETRIES \<longrightarrow>
      http_get_from W p attempt s =
      http_get_from W p (Suc attempt)
        (s\<lparr>calls := Suc (calls s), draws := Suc (draws s),
           trace := trace s @ [Request p, Sleep (min 60 (2 ^ attempt + jitter W (draws s)))]\<rparr>))
   \<and> (attempt = MAX_RETRIES \<longrightarrow>
      http_get_from W p attempt s =
      (Inl (response_error r), s\<lparr>calls := Suc (calls s), trace := trace s @ [Request p]\<rparr>))"
proof (intro impI conjI)
  assume a: "server W (calls s) p = Returns r \<and> non_retryable r \<and> 0 \<le> jitter W (draws s)"
  then have tb: "try_body W p attempt s =
    (Inl (response_error r), s\<lparr>calls := Suc (calls s), trace := trace s @ [Request p]\<rparr>)"
    by (simp add: try_body_non_retryable)
  {
    assume lt: "attempt < MAX_RETRIES"
    have sb: "sleep_backoff W attempt None
        (s\<lparr>calls := Suc (calls s), trace := trace s @ [Request p]\<rparr>) =
      (Inr (), s\<lparr>calls := Suc (calls s), draws := Suc (draws s),
           trace := trace s @ [Request p, Sleep (min 60 (2 ^ attempt + jitter W (draws s)))]\<rparr>)"
      using a by (simp add: sleep_backoff_computed)
    show "http_get_from W p attempt s =
      http_get_from W p (Suc attempt)
        (s\<lparr>calls := Suc (calls s), draws := Suc (draws s),
           trace := trace s @ [Request p, Sleep (min 60 (2 ^ attempt + jitter W (draws s)))]\<rparr>)"
      using lt by (subst http_get_from.simps) (simp add: tb sb)
  }
  {
    assume eq: "attempt = MAX_RETRIES"
    show "http_get_from W p attempt s =
      (Inl (response_error r), s\<lparr>calls := Suc (calls s), trace := trace s @ [Request p]\<rparr>)"
      unfolding eq using tb [unfolded eq] by (subst http_get_from.simps) simp
  }
qed

text \<open>
  An endpoint that answers 404 every time: \<open>http_get\<close> sends the request five times
  and sleeps four times before the error surfaces, where the claim has one request
  and no sleep.
\<close>

theorem C3_not_found_retried_counterexample:
  "non_retryable \<lparr>status_code = 404, retry_after_hdr = NoHeader, body = None\<rparr>
   \<and> http_get not_found page0 io0 =
     (Inl (HTTPError 404),
      \<lparr>calls = 5, draws = 4,
       trace = [Request page0, Sleep (5 / 2), Request page0, Sleep (9 / 2), Request page0,
                Sleep (17 / 2), Request page0, Sleep (33 / 2), Request page0]\<rparr>)
   \<and> http_get not_found page0 io0 \<noteq>
     (Inl (HTTPError 404), \<lparr>calls = 1, draws = 0, trace = [Request page0]\<rparr>)"
proof -
  have "http_get not_found page0 io0 =
     (Inl (HTTPError 404),
      \<lparr>calls = 5, draws = 4,
       trace = [Request page0, Sleep (5 / 2), Request page0, Sleep (9 / 2), Request page0,
                Sleep (17 / 2), Request page0, Sleep (33 / 2), Request page0]\<rparr>)"
    by (simp add: http_get_def http_get_from.simps MAX_RETRIES_def try_body_def session_get_def
        not_found_def io0_def raise_for_status_def sleep_backoff_def random_uniform_def
        time_sleep_def)
  then show ?thesis
    by (simp add: non_retryable_def)
qed

theorem C3_non_retryable_is_retried_witness:
  "server not_found (calls io0) page0 =
     Returns \<lparr>status_code = 404, retry_after_hdr = NoHeader, body = None\<rparr>
   \<and> non_retryable \<lparr>status_code = 404, retry_after_hdr = NoHeader, body = None\<rparr>
   \<and> 0 \<le> jitter not_found (draws io0)
   \<and> 1 < MAX_RETRIES
   \<and> http_get_from not_found page0 1 io0 =
      http_get_from not_found page0 2
        \<lparr>calls = 1, draws = 1, trace = [Request page0, Sleep (5 / 2)]\<rparr>"
proof -
  have h: "server not_found (calls io0) page0 =
       Returns \<lparr>status_code = 404, retry_after_hdr = NoHeader, body = None\<rparr>
     \<and> non_retryable \<lparr>status_code = 404, retry_after_hdr = NoHeader, body = None\<rparr>
     \<and> 0 \<le> jitter not_found (draws io0)"
    by (simp add: not_found_def non_retryable_def)
  have lt: "1 < MAX_RETRIES"
    by (simp add: MAX_RETRIES_def)
  have j: "jitter not_found (draws io0) = 1 / 2"
    by (simp add: not_found_def)
  have "http_get_from not_found page0 1 io0 =
      http_get_from not_found page0 (Suc 1)
        (io0\<lparr>calls := Suc (calls io0), draws := Suc (draws io0),
           trace := trace io0 @ [Request page0, Sleep (min 60 (2 ^ 1 + jitter not_found (draws io0)))]\<rparr>)"
    using C3_non_retryable_is_retried [of not_found io0 page0 _ 1] h lt by blast
  then have "http_get_from not_found page0 1 io0 =
      http_get_from not_found page0 2
        \<lparr>calls = 1, draws = 1, trace = [Request page0, Sleep (5 / 2)]\<rparr>"
    unfolding j by (simp add: io0_def numeral_2_eq_2)
  then show ?thesis
    using h lt by blast
qed

section \<open>Claim C5: the retry budget\<close>

lemma try_body_transient:
  assumes "try_body W p a (s::io) = (x, s')" and "transient (server W (calls s) p)"
  shows "\<forall>j. x \<noteq> Inr (Return j)"
  using assms
  by (auto simp: try_body_def session_get_def transient_def
      split: outcome.splits if_splits sum.splits prod.splits)

text \<open>
  When every attempt that is left fails with a transient error, \<open>http_get\<close> either
  raises or runs off the end of its loop and returns None; the fetch that called it
  ends with an exception in both cases.
\<close>

lemma http_get_from_transient:
  assumes "\<forall>i. a + i \<le> MAX_RETRIES \<longrightarrow> transient (server W (calls s + i) p)"
    and "1 \<le> a"
  shows "fst (http_get_from W p a (s::io)) = Inr JNull
    \<or> (\<exists>e. fst (http_get_from W p a s) = Inl e)"
  using assms
proof (induction "Suc MAX_RETRIES - a" arbitrary: a s)
  case 0
  then show ?case by (subst http_get_from.simps, subst http_get_from.simps) simp
next
  case (Suc n)
  then have a: "\<not> MAX_RETRIES < a" and n: "n = Suc MAX_RETRIES - Suc a" by auto
  obtain r1 s1 where tb: "try_body W p a s = (r1, s1)" by (cases "try_body W p a s")
  have tr: "transient (server W (calls s) p)"
    using Suc.prems(1) a by (auto dest: spec [of _ 0])
  have nr: "\<forall>j. r1 \<noteq> Inr (Return j)"
    using try_body_transient [OF tb tr] .
  have c1: "calls s1 = Suc (calls s)"
    using try_body_io [OF tb] by simp
  have rec: "\<And>s0::io. calls s0 = Suc (calls s) \<Longrightarrow>
     fst (http_get_from W p (Suc a) s0) = Inr JNull
     \<or> (\<exists>e. fst (http_get_from W p (Suc a) s0) = Inl e)"
  proof -
    fix s0 :: io assume c: "calls s0 = Suc (calls s)"
    have "\<forall>i. Suc a + i \<le> MAX_RETRIES \<longrightarrow> transient (server W (calls s0 + i) p)"
      using Suc.prems(1) c by (auto dest: spec [of _ "Suc i" for i])
    then show "fst (http_get_from W p (Suc a) s0) = Inr JNull
        \<or> (\<exists>e. fst (http_get_from W p (Suc a) s0) = Inl e)"
      using Suc.hyps(1) [OF n, of s0] by simp
  qed
  obtain r2 s2 where sb: "sleep_backoff W a None s1 = (r2, s2)"
    by (cases "sleep_backoff W a None s1")
  then have c2: "calls s2 = Suc (calls s)"
    using sleep_backoff_io [OF sb] c1 by simp
  show ?case
    using a tb nr sb rec [OF c1] rec [OF c2]
    by (subst http_get_from.simps, subst http_get_from.simps)
       (auto split: sum.splits step.splits)
qed

lemma fetch_pages_transient:
  assumes "\<forall>i<5. transient (server W (calls s + i) (mk skip))"
  shows "\<exists>e. fst (fetch_pages (Suc fuel) W E B mk tot skip s db) = Some (Inl e)"
proof -
  have "\<forall>i. 1 + i \<le> MAX_RETRIES \<longrightarrow> transient (server W (calls s + i) (mk skip))"
    using assms by (simp add: MAX_RETRIES_def)
  from http_get_from_transient [OF this]
  have "fst (http_get W (mk skip) s) = Inr JNull \<or> (\<exists>e. fst (http_get W (mk skip) s) = Inl e)"
    by (simp add: http_get_def)
  then show ?thesis
    by (cases "http_get W (mk skip) s") (auto split: sum.splits)
qed

text \<open>
  The last attempt. When it is answered with 429, 503 or another status of 500 or more
  (and the sleep that follows does not fail), the \<^verbatim>\<open>continue\<close> ends the loop and
  \<open>http_get\<close> returns None. When it raises, the handler raises the exception again.
\<close>

lemma last_attempt_status_returns_None:
  assumes "server W (calls s) p = Returns r"
    and "status_code r = 429 \<or> status_code r = 503 \<or> 500 \<le> status_code r"
    and "retry_after_hdr r = NoHeader \<or> retry_after_hdr r = EmptyHeader
      \<or> (\<exists>n. 0 \<le> n \<and> retry_after_hdr r = IntHeader n)"
    and "0 \<le> jitter W (draws s)"
  shows "fst (http_get_from W p MAX_RETRIES s) = Inr JNull"
proof -
  let ?s1 = "s\<lparr>calls := Suc (calls s), trace := trace s @ [Request p]\<rparr>"
  have j: "0 \<le> jitter W (draws ?s1)"
    using assms(4) by simp
  have sb0: "\<And>h. h = None \<or> h = Some 0 \<Longrightarrow> fst (sleep_backoff W MAX_RETRIES h ?s1) = Inr ()"
    using sleep_backoff_computed [OF _ j] by simp
  have sbn: "\<And>n. 0 < n \<Longrightarrow> fst (sleep_backoff W MAX_RETRIES (Some n) ?s1) = Inr ()"
    by (simp add: sleep_backoff_hint)
  have sb: "\<And>n. 0 \<le> n \<Longrightarrow> fst (sleep_backoff W MAX_RETRIES (Some n) ?s1) = Inr ()"
  proof -
    fix n :: int assume "0 \<le> n"
    then consider "n = 0" | "0 < n" by linarith
    then show "fst (sleep_backoff W MAX_RETRIES (Some n) ?s1) = Inr ()"
      using sb0 [of "Some n"] sbn [of n] by cases simp_all
  qed
  have "fst (try_body W p MAX_RETRIES s) = Inr Continue"
  proof (cases "status_code r = 429 \<or> status_code r = 503")
    case True
    from assms(3) obtain n where n: "0 \<le> n" "parse_retry_after (retry_after_hdr r) = Inr n"
      by (auto simp: parse_retry_after_def)
    obtain x s2 where x: "sleep_backoff W MAX_RETRIES (Some n) ?s1 = (x, s2)"
      by (cases "sleep_backoff W MAX_RETRIES (Some n) ?s1")
    then have "x = Inr ()" using sb [OF n(1)] by simp
    then show ?thesis
      using True assms(1) n(2) x by (simp add: try_body_def session_get_def)
  next
    case False
    then have ge: "500 \<le> status_code r" using assms(2) by simp
    obtain x s2 where x: "sleep_backoff W MAX_RETRIES None ?s1 = (x, s2)"
      by (cases "sleep_backoff W MAX_RETRIES None ?s1")
    then have "x = Inr ()" using sb0 [of None] by simp
    then show ?thesis
      using False ge assms(1) x by (simp add: try_body_def session_get_def)
  qed
  then obtain s2 where "try_body W p MAX_RETRIES s = (Inr Continue, s2)"
    by (cases "try_body W p MAX_RETRIES s") auto
  then show ?thesis
    by (subst http_get_from.simps, subst http_get_from.simps) simp
qed

lemma last_attempt_exception_is_raised:
  assumes "server W (calls s) p = Raises"
  shows "fst (http_get_from W p MAX_RETRIES s) = Inl RequestException"
  using assms
  by (subst http_get_from.simps) (simp add: try_body_def session_get_def)


section \<open>Claim C9: the page size of every request\<close>

text \<open>
  C9. Whatever the configured batch size, every request that \<open>full_dump\<close> and
  \<open>incremental_from\<close> send, first attempts and retries alike, carries
  \<open>$top = min(BATCH_SIZE, 1000)\<close>, which is at most 1000. This holds for every prefix
  of a run (any number of pages).
\<close>

theorem C9_page_clamp:
  "list_all (\<lambda>p. p_top p = min BATCH_SIZE 1000 \<and> p_top p \<le> 1000)
     (issued s (fst (snd (full_dump fuel W E BATCH_SIZE s db))))
   \<and> list_all (\<lambda>p. p_top p = min BATCH_SIZE 1000 \<and> p_top p \<le> 1000)
     (issued s (fst (snd (incremental_from fuel W E BATCH_SIZE wm s db))))"
proof -
  have a: "\<And>mk. (\<And>k. p_top (mk k) = min BATCH_SIZE MAX_TOP) \<Longrightarrow>
     list_all (\<lambda>p. p_top p = min BATCH_SIZE 1000 \<and> p_top p \<le> 1000)
       (issued s (fst (snd (fetch_pages fuel W E BATCH_SIZE mk 0 0 s db))))"
  proof -
    fix mk :: "int \<Rightarrow> params"
    assume mk: "\<And>k. p_top (mk k) = min BATCH_SIZE MAX_TOP"
    obtain x s' db' where f: "fetch_pages fuel W E BATCH_SIZE mk 0 0 s db = (x, s', db')"
      by (cases "fetch_pages fuel W E BATCH_SIZE mk 0 0 s db")
    from fetch_pages_io [OF f] obtain ps where "extends s s' ps" "set ps \<subseteq> range mk" by auto
    then show "list_all (\<lambda>p. p_top p = min BATCH_SIZE 1000 \<and> p_top p \<le> 1000)
       (issued s (fst (snd (fetch_pages fuel W E BATCH_SIZE mk 0 0 s db))))"
      using mk f by (auto simp: extends_issued list_all_iff MAX_TOP_def)
  qed
  show ?thesis
    unfolding full_dump_def incremental_from_def
    by (intro conjI a) (simp_all add: full_dump_params_def incremental_params_def)
qed

theorem C9_page_clamp_witness:
  "list_all (\<lambda>p. p_top p = 1000)
     (issued io0 (fst (snd (full_dump 2 not_found two_dates 5000 io0 empty_store))))
   \<and> length (issued io0 (fst (snd (full_dump 2 not_found two_dates 5000 io0 empty_store)))) = 5"
proof -
  have "list_all (\<lambda>p. p_top p = min 5000 1000 \<and> p_top p \<le> 1000)
     (issued io0 (fst (snd (full_dump 2 not_found two_dates 5000 io0 empty_store))))"
    using C9_page_clamp [of 5000 io0 2 not_found two_dates empty_store] by blast
  then have a: "list_all (\<lambda>p. p_top p = 1000)
     (issued io0 (fst (snd (full_dump 2 not_found two_dates 5000 io0 empty_store))))"
    by (simp add: list_all_iff)
  have b: "length (issued io0 (fst (snd (full_dump 2 not_found two_dates 5000 io0 empty_store)))) = 5"
    by code_simp
  show ?thesis
    using a b by blast
qed

section \<open>Claim C10: nothing to merge\<close>

lemma build_payload_lacking:
  "list_all lacks_hash rows \<Longrightarrow> build_payload rows = Inr []"
  by (induction rows) (auto simp: lacks_hash_def split: sum.splits)

text \<open>
  C10. Called with an empty sequence, or with records that all lack a hash,
  \<open>upsert_landing\<close> returns 0 and leaves the store as it was: both tables, and the
  count of committed write transactions (no transaction is opened).
\<close>

theorem C10_nothing_to_merge:
  "rows = [] \<or> list_all lacks_hash rows \<longrightarrow> upsert_landing E rows db = Inr (0, db)"
  by (auto simp: upsert_landing_def build_payload_lacking)

theorem C10_nothing_to_merge_witness:
  "list_all lacks_hash [rec_no_hash, JObj []]
   \<and> upsert_landing two_dates [rec_no_hash, JObj []] june_store = Inr (0, june_store)
   \<and> upsert_landing two_dates [] june_store = Inr (0, june_store)"
  using C10_nothing_to_merge [of "[rec_no_hash, JObj []]" two_dates june_store]
    C10_nothing_to_merge [of "[]" two_dates june_store]
  by (simp add: lacks_hash_def rec_no_hash_def)

section \<open>Claim C4: the timestamp of a row that is merged again\<close>

lemma coalesce_simps [simp]:
  "coalesce None b = b"
  "coalesce (Some x) b = Some x"
  "coalesce a None = a"
  "coalesce a (coalesce a b) = coalesce a b"
  "coalesce a (coalesce b c) = coalesce (coalesce a b) c"
  by (simp_all add: coalesce_def split: option.splits)

text \<open>
  C4 (as the code has it). A record whose hash is already in the landing table is
  merged: the document is replaced, and the stored \<open>lastrefresh\<close> becomes the incoming
  value when that is not null, and stays as it was otherwise
  (\<^verbatim>\<open>COALESCE(EXCLUDED.lastrefresh, landing.lastrefresh)\<close>). This is the newer of the two
  values unless both are present and the incoming one is the older.
\<close>

theorem C4_incoming_timestamp_wins:
  assumes "py_get obj ''hash'' = Inr h" and "truthy h" and "bind_hash E h = Some k"
    and "py_get obj ''lastRefresh'' = Inr lr" and "bind_lastrefresh E lr = Some incoming"
    and "map_of (landing db) k = Some old"
  shows "\<exists>db'. upsert_landing E [obj] db = Inr (1, db')
      \<and> map_of (landing db') k =
          Some \<lparr>l_raw = obj,
                l_lastrefresh = (case incoming of Some t \<Rightarrow> Some t | None \<Rightarrow> l_lastrefresh old)\<rparr>
      \<and> ((\<forall>a b. l_lastrefresh old = Some a \<and> incoming = Some b \<longrightarrow> a \<le> b) \<longrightarrow>
           map_option l_lastrefresh (map_of (landing db') k)
           = Some (newer_non_null (l_lastrefresh old) incoming))"
  using assms
  by (auto simp: upsert_landing_def upsert_row_def coalesce_def update_conv' newer_non_null_def
      split: option.splits)

text \<open>
  The row of hash X holds 2024-06-01; the same hash arrives with 2024-01-01. The code
  stores the older, incoming value; the newer of the two is the one that was stored.
\<close>

theorem C4_older_incoming_replaces_counterexample:
  "map_option l_lastrefresh (map_of (landing june_store) ''X'') = Some (Some 1717200000000000)
   \<and> map_option l_lastrefresh
       (map_of (landing (store_after (upsert_landing two_dates [rec_january] june_store) june_store))
          ''X'')
     = Some (Some 1704067200000000)
   \<and> newer_non_null (Some 1717200000000000) (Some 1704067200000000) = Some 1717200000000000"
  by (simp add: upsert_landing_def upsert_row_def coalesce_def newer_non_null_def store_after_def
      june_store_def rec_january_def two_dates_def bind_hash_def bind_lastrefresh_def)

theorem C4_incoming_timestamp_wins_witness:
  "py_get rec_january ''hash'' = Inr (JStr ''X'') \<and> truthy (JStr ''X'')
   \<and> bind_hash two_dates (JStr ''X'') = Some ''X''
   \<and> py_get rec_january ''lastRefresh'' = Inr (JStr ''2024-01-01T00:00:00Z'')
   \<and> bind_lastrefresh two_dates (JStr ''2024-01-01T00:00:00Z'') = Some (Some 1704067200000000)
   \<and> map_of (landing june_store) ''X''
       = Some \<lparr>l_raw = rec_june, l_lastrefresh = Some 1717200000000000\<rparr>
   \<and> (\<exists>db'. upsert_landing two_dates [rec_january] june_store = Inr (1, db')
        \<and> map_of (landing db') ''X''
            = Some \<lparr>l_raw = rec_january, l_lastrefresh = Some 1704067200000000\<rparr>)"
proof -
  have 1: "py_get rec_january ''hash'' = Inr (JStr ''X'')"
    by (simp add: rec_january_def)
  have 2: "truthy (JStr ''X'')"
    by simp
  have 3: "bind_hash two_dates (JStr ''X'') = Some ''X''"
    by (simp add: bind_hash_def)
  have 4: "py_get rec_january ''lastRefresh'' = Inr (JStr ''2024-01-01T00:00:00Z'')"
    by (simp add: rec_january_def)
  have 5: "bind_lastrefresh two_dates (JStr ''2024-01-01T00:00:00Z'') = Some (Some 1704067200000000)"
    by (simp add: bind_lastrefresh_def two_dates_def)
  have 6: "map_of (landing june_store) ''X''
       = Some \<lparr>l_raw = rec_june, l_lastrefresh = Some 1717200000000000\<rparr>"
    by (simp add: june_store_def)
  from C4_incoming_timestamp_wins [OF 1 2 3 4 5 6]
  have "\<exists>db'. upsert_landing two_dates [rec_january] june_store = Inr (1, db')
        \<and> map_of (landing db') ''X''
            = Some \<lparr>l_raw = rec_january, l_lastrefresh = Some 1704067200000000\<rparr>"
    by auto
  then show ?thesis
    using 1 2 3 4 5 6 by blast
qed

section \<open>Claim C1: the rows the projection selects\<close>

text \<open>
  What the \<^verbatim>\<open>WHERE\<close> clause selects: a landing row with no flat row, or one whose
  \<open>lastrefresh\<close> and the flat row's are both not null, the landing one the greater. A
  comparison with NULL is unknown, never true.
\<close>

lemma selected_iff:
  "selected l f \<longleftrightarrow>
     f = None
     \<or> (\<exists>t u fr. l_lastrefresh l = Some t \<and> f = Some fr \<and> f_lastrefresh fr = Some u \<and> u < t)"
  by (auto simp: selected_def where_clause_def sql_or_def sql_and_def sql_gt_def
      split: option.splits)

lemma null_flat_timestamp_not_selected:
  "f_lastrefresh fr = None \<Longrightarrow> \<not> selected l (Some fr)"
  by (simp add: selected_iff)

text \<open>
  C1, on a run of the program itself. A record without \<open>lastRefresh\<close> is merged into the
  empty store and projected: its flat row has a null \<open>lastrefresh\<close>. The same hash then
  arrives with the timestamp 2024-06-01 and the landing row takes it. The landing row
  now has a non-null \<open>lastrefresh\<close> and its flat counterpart a null one; the claim has
  the row selected and projected again, the code selects nothing and the flat row keeps
  the old document.
\<close>

theorem C1_null_flat_timestamp_is_not_selected:
  "map_option l_lastrefresh (map_of (landing dated_landed) ''X'') = Some (Some 1717200000000000)
   \<and> map_option f_lastrefresh (map_of (flat dated_landed) ''X'') = Some None
   \<and> map_option f_raw (map_of (flat dated_landed) ''X'') = Some rec_undated
   \<and> select_rows (landing dated_landed) (flat dated_landed) = []
   \<and> sync_flat_from_landing two_dates dated_landed = Inr (0, dated_landed\<lparr>writes := 4\<rparr>)"
  by code_simp

section \<open>Claim C8: a record without a hash is never stored\<close>

lemma set_update_subset: "set (AList.update k v al) \<subseteq> insert (k, v) (set al)"
  by (induction al) auto

lemma build_payload_has_hash:
  "build_payload rows = Inr pl \<Longrightarrow> list_all (\<lambda>it. has_hash (pl_raw it)) pl"
proof (induction rows arbitrary: pl)
  case Nil
  then show ?case by simp
next
  case (Cons obj rows)
  then show ?case
    by (auto simp: has_hash_def split: sum.splits if_splits)
qed

lemma build_payload_skips:
  "build_payload rows = build_payload (filter (\<lambda>obj. \<not> lacks_hash obj) rows)"
  by (induction rows) (auto simp: lacks_hash_def split: sum.splits)

lemma upsert_row_gated:
  assumes "upsert_row E it L = Some L'" and "has_hash (pl_raw it)"
    and "list_all (\<lambda>kl. has_hash (l_raw (snd kl))) L"
  shows "list_all (\<lambda>kl. has_hash (l_raw (snd kl))) L'"
  using assms set_update_subset
  by (fastforce simp: upsert_row_def list_all_iff split: option.splits)

lemma execute_upsert_gated:
  assumes "execute_upsert E pl L = Some L'" and "list_all (\<lambda>it. has_hash (pl_raw it)) pl"
    and "list_all (\<lambda>kl. has_hash (l_raw (snd kl))) L"
  shows "list_all (\<lambda>kl. has_hash (l_raw (snd kl))) L'"
  using assms
proof (induction pl arbitrary: L)
  case Nil
  then show ?case by simp
next
  case (Cons it pl)
  then show ?case
    by (auto split: option.splits dest: upsert_row_gated)
qed

lemma upsert_landing_gated:
  assumes "hash_gated db" and "upsert_landing E rows db = Inr (n, db')"
  shows "hash_gated db'"
  using assms
  by (auto simp: upsert_landing_def hash_gated_def split: if_splits sum.splits option.splits
      dest: build_payload_has_hash execute_upsert_gated)

lemma project_row_raw:
  "project_row E kl = Some r \<Longrightarrow> f_raw (snd r) = l_raw (snd kl)"
  by (auto simp: project_row_def split: option.splits)

lemma project_rows_raw:
  "project_rows E sel = Some rows \<Longrightarrow> f_raw ` snd ` set rows \<subseteq> l_raw ` snd ` set sel"
proof (induction sel arbitrary: rows)
  case Nil
  then show ?case by simp
next
  case (Cons kl sel)
  from Cons.prems obtain r rs where r: "project_row E kl = Some r"
    and rs: "project_rows E sel = Some rs" and rows: "rows = r # rs"
    by (auto split: option.splits)
  have "f_raw (snd r) = l_raw (snd kl)"
    using project_row_raw [OF r] .
  moreover have "f_raw ` snd ` set rs \<subseteq> l_raw ` snd ` set sel"
    using Cons.IH [OF rs] .
  ultimately show ?case
    unfolding rows by auto
qed

lemma merge_flat_set: "set (merge_flat rows F) \<subseteq> set rows \<union> set F"
  unfolding merge_flat_def
proof (induction rows arbitrary: F)
  case Nil
  then show ?case by simp
next
  case (Cons r rows)
  have "set (AList.update (fst r) (snd r) F) \<subseteq> insert r (set F)"
    using set_update_subset [of "fst r" "snd r" F] by simp
  then show ?case using Cons [of "AList.update (fst r) (snd r) F"] by auto
qed

lemma sync_gated:
  assumes "hash_gated db" and "sync_flat_from_landing E db = Inr (n, db')"
  shows "hash_gated db'"
proof -
  from assms(2) obtain rows where
    rows: "project_rows E (select_rows (landing db) (flat db)) = Some rows"
    and db': "db' = db\<lparr>flat := merge_flat rows (flat db), writes := Suc (writes db)\<rparr>"
    by (auto simp: sync_flat_from_landing_def split: option.splits)
  have sel: "set (select_rows (landing db) (flat db)) \<subseteq> set (landing db)"
    by (simp add: select_rows_def)
  have "\<forall>kf \<in> set rows. has_hash (f_raw (snd kf))"
  proof
    fix kf assume "kf \<in> set rows"
    then have "f_raw (snd kf) \<in> l_raw ` snd ` set (select_rows (landing db) (flat db))"
      using project_rows_raw [OF rows] by blast
    then obtain kl where "kl \<in> set (landing db)" "f_raw (snd kf) = l_raw (snd kl)"
      using sel by auto
    then show "has_hash (f_raw (snd kf))"
      using assms(1) by (auto simp: hash_gated_def list_all_iff)
  qed
  then have "\<forall>kf \<in> set (merge_flat rows (flat db)). has_hash (f_raw (snd kf))"
    using merge_flat_set [of rows "flat db"] assms(1) by (auto simp: hash_gated_def list_all_iff)
  then show ?thesis
    using assms(1) db' by (simp add: hash_gated_def list_all_iff)
qed

lemma fetch_pages_gated:
  assumes "hash_gated db"
  shows "hash_gated (snd (snd (fetch_pages fuel W E B mk tot skip s db)))"
  using assms
proof (induction fuel arbitrary: tot skip s db)
  case 0
  then show ?case by simp
next
  case (Suc fuel)
  show ?case
    using Suc.prems Suc.IH
    by (auto split: sum.splits prod.splits dest: upsert_landing_gated)
qed

text \<open>
  C8. \<open>upsert_landing\<close> does with a batch exactly what it does with the batch without
  its records that lack a hash: such a record is skipped, it is neither counted nor
  written. And when every document of the landing and flat tables carries a hash (as in
  the empty store), this is still so after \<open>upsert_landing\<close> on any batch, after
  \<open>sync_flat_from_landing\<close>, and after any run of \<open>full_dump\<close> or \<open>incremental_from\<close>:
  flat documents are copies of landing documents.
\<close>

theorem C8_hash_gating:
  "upsert_landing E rows db = upsert_landing E (filter (\<lambda>obj. \<not> lacks_hash obj) rows) db
   \<and> hash_gated empty_store
   \<and> (hash_gated db \<longrightarrow>
        hash_gated (store_after (upsert_landing E rows db) db)
        \<and> hash_gated (store_after (sync_flat_from_landing E db) db)
        \<and> hash_gated (snd (snd (full_dump fuel W E BATCH_SIZE s db)))
        \<and> hash_gated (snd (snd (incremental_from fuel W E BATCH_SIZE wm s db))))"
proof (intro conjI impI)
  show "upsert_landing E rows db = upsert_landing E (filter (\<lambda>obj. \<not> lacks_hash obj) rows) db"
  proof (cases "rows = []")
    case True
    then show ?thesis by simp
  next
    case False
    have "filter (\<lambda>obj. \<not> lacks_hash obj) rows = [] \<Longrightarrow> build_payload rows = Inr []"
      using build_payload_skips [of rows] by simp
    then show ?thesis
      using False build_payload_skips [of rows]
      by (cases "filter (\<lambda>obj. \<not> lacks_hash obj) rows = []") (simp_all add: upsert_landing_def)
  qed
next
  show "hash_gated empty_store"
    by (simp add: hash_gated_def empty_store_def)
next
  assume g: "hash_gated db"
  show "hash_gated (store_after (upsert_landing E rows db) db)"
    using g upsert_landing_gated [OF g]
    by (cases "upsert_landing E rows db") (auto simp: store_after_def)
  show "hash_gated (store_after (sync_flat_from_landing E db) db)"
    using g sync_gated [OF g]
    by (cases "sync_flat_from_landing E db") (auto simp: store_after_def)
  show "hash_gated (snd (snd (full_dump fuel W E BATCH_SIZE s db)))"
    using g by (simp add: full_dump_def fetch_pages_gated)
  show "hash_gated (snd (snd (incremental_from fuel W E BATCH_SIZE wm s db)))"
    using g by (simp add: incremental_from_def fetch_pages_gated)
qed

theorem C8_hash_gating_witness:
  "lacks_hash rec_no_hash
   \<and> hash_gated june_store
   \<and> upsert_landing two_dates [rec_no_hash, rec_january] june_store
       = upsert_landing two_dates [rec_january] june_store
   \<and> hash_gated (store_after (upsert_landing two_dates [rec_no_hash, rec_january] june_store) june_store)
   \<and> map fst (landing (store_after (upsert_landing two_dates [rec_no_hash, rec_january] june_store)
        june_store)) = [''X'']"
proof -
  have l: "lacks_hash rec_no_hash" "\<not> lacks_hash rec_january"
    by (simp_all add: lacks_hash_def rec_no_hash_def rec_january_def)
  have g: "hash_gated june_store"
    by (simp add: hash_gated_def june_store_def has_hash_def rec_june_def)
  note inst = C8_hash_gating [of two_dates "[rec_no_hash, rec_january]" june_store]
  have a: "upsert_landing two_dates [rec_no_hash, rec_january] june_store
       = upsert_landing two_dates [rec_january] june_store"
    using inst l by simp
  have b: "hash_gated (store_after (upsert_landing two_dates [rec_no_hash, rec_january] june_store)
      june_store)"
    using inst g by blast
  have c: "map fst (landing (store_after (upsert_landing two_dates [rec_no_hash, rec_january] june_store)
        june_store)) = [''X'']"
    by code_simp
  show ?thesis
    using l(1) g a b c by blast
qed

section \<open>Claim C6: merging again changes nothing\<close>

lemma upsert_row_put:
  "upsert_row E it L = map_option (\<lambda>b. put b L) (bound_item E it)"
  by (simp add: upsert_row_def bound_item_def put_def lr_of_def split: option.splits)

lemma execute_upsert_fold:
  "execute_upsert E pl L = map_option (\<lambda>bs. fold put bs L) (those (map (bound_item E) pl))"
proof (induction pl arbitrary: L)
  case Nil
  then show ?case by simp
next
  case (Cons it pl)
  then show ?case
    by (cases "bound_item E it"; cases "those (map (bound_item E) pl)")
       (simp_all add: upsert_row_put)
qed

lemma map_of_put:
  "map_of (put b L) k =
     (if fst b = k
      then Some \<lparr>l_raw = fst (snd b), l_lastrefresh = coalesce (snd (snd b)) (lr_of (map_of L k))\<rparr>
      else map_of L k)"
  by (auto simp: put_def update_conv')

lemma map_of_fold_put: "map_of (fold put bs L) k = at_key bs k (map_of L k)"
  by (induction bs arbitrary: L) (simp_all add: map_of_put)

text \<open>
  What a batch does to one key is nothing, or a function of one shape: it sets the
  document and coalesces a timestamp with the old one. Both are idempotent.
\<close>

lemma at_key_shape:
  "(\<forall>x. at_key bs k x = x)
   \<or> (\<exists>r c. \<forall>x. at_key bs k x = Some \<lparr>l_raw = r, l_lastrefresh = coalesce c (lr_of x)\<rparr>)"
proof (induction bs)
  case Nil
  then show ?case by simp
next
  case (Cons b bs)
  show ?case
  proof (cases "fst b = k")
    case False
    then show ?thesis using Cons by simp
  next
    case True
    from Cons show ?thesis
    proof
      assume "\<forall>x. at_key bs k x = x"
      then show ?thesis using True by auto
    next
      assume "\<exists>r c. \<forall>x. at_key bs k x = Some \<lparr>l_raw = r, l_lastrefresh = coalesce c (lr_of x)\<rparr>"
      then obtain r c where
        rc: "\<forall>x. at_key bs k x = Some \<lparr>l_raw = r, l_lastrefresh = coalesce c (lr_of x)\<rparr>"
        by blast
      have "\<forall>x. at_key (b # bs) k x =
          Some \<lparr>l_raw = r, l_lastrefresh = coalesce (coalesce c (snd (snd b))) (lr_of x)\<rparr>"
        using True rc by (simp add: lr_of_def)
      then show ?thesis by blast
    qed
  qed
qed

lemma at_key_idem: "at_key bs k (at_key bs k x) = at_key bs k x"
  using at_key_shape [of bs k] by (auto simp: lr_of_def)

lemma keys_put:
  "map fst (put b L) = (if fst b \<in> fst ` set L then map fst L else map fst L @ [fst b])"
  by (simp add: put_def update_keys)

lemma keys_put_mono: "fst ` set L \<subseteq> fst ` set (put b L)"
proof -
  have "set (map fst L) \<subseteq> set (map fst (put b L))"
    unfolding keys_put by auto
  then show ?thesis by simp
qed

lemma keys_put_has: "fst b \<in> fst ` set (put b L)"
proof -
  have "fst b \<in> set (map fst (put b L))"
    unfolding keys_put by auto
  then show ?thesis by simp
qed

lemma keys_fold_put_mono: "fst ` set L \<subseteq> fst ` set (fold put bs L)"
proof (induction bs arbitrary: L)
  case Nil
  then show ?case by simp
next
  case (Cons b bs)
  have "fst ` set L \<subseteq> fst ` set (put b L)"
    by (rule keys_put_mono)
  also have "\<dots> \<subseteq> fst ` set (fold put bs (put b L))"
    by (rule Cons)
  finally show ?case by simp
qed

lemma keys_fold_put_has: "fst ` set bs \<subseteq> fst ` set (fold put bs L)"
proof (induction bs arbitrary: L)
  case Nil
  then show ?case by simp
next
  case (Cons b bs)
  have "fst b \<in> fst ` set (fold put bs (put b L))"
    using keys_put_has [of b L] keys_fold_put_mono [of "put b L" bs] by auto
  then show ?case using Cons [of "put b L"] by auto
qed

lemma keys_fold_put_same:
  "fst ` set bs \<subseteq> fst ` set L \<Longrightarrow> map fst (fold put bs L) = map fst L"
proof (induction bs arbitrary: L)
  case Nil
  then show ?case by simp
next
  case (Cons b bs)
  then have k: "map fst (put b L) = map fst L" by (simp add: keys_put)
  then have "set (map fst (put b L)) = set (map fst L)" by simp
  then have "fst ` set (put b L) = fst ` set L" by simp
  then show ?case using Cons k by simp
qed

lemma distinct_fold_put: "distinct (map fst L) \<Longrightarrow> distinct (map fst (fold put bs L))"
  by (induction bs arbitrary: L) (simp_all add: put_def distinct_update)

text \<open>Two tables with the same keys in the same order, each once, and the same rows.\<close>

lemma alist_eqI:
  "map fst xs = map fst ys \<Longrightarrow> distinct (map fst xs) \<Longrightarrow> map_of xs = map_of ys \<Longrightarrow> xs = ys"
proof (induction xs arbitrary: ys)
  case Nil
  then show ?case by simp
next
  case (Cons x xs)
  then obtain y ys' where ys: "ys = y # ys'" by (cases ys) auto
  have k: "fst x = fst y" "map fst xs = map fst ys'" using Cons.prems(1) ys by auto
  have "map_of (x # xs) (fst x) = map_of (y # ys') (fst x)"
    using fun_cong [OF Cons.prems(3), of "fst x"] ys by blast
  then have v: "snd x = snd y" using k by simp
  have "map_of xs = map_of ys'"
  proof
    fix a
    show "map_of xs a = map_of ys' a"
    proof (cases "a = fst x")
      case True
      have "fst x \<notin> set (map fst xs)"
        using Cons.prems(2) by simp
      then have "a \<notin> set (map fst xs)" "a \<notin> set (map fst ys')"
        using True k(2) by auto
      then have "a \<notin> fst ` set xs" "a \<notin> fst ` set ys'"
        by simp_all
      then have "map_of xs a = None" "map_of ys' a = None"
        by (simp_all add: map_of_eq_None_iff)
      then show ?thesis by simp
    next
      case False
      then show ?thesis using fun_cong [OF Cons.prems(3), of a] ys k by simp
    qed
  qed
  then have "xs = ys'" using Cons.IH [OF k(2)] Cons.prems(2) by simp
  then show ?case using ys k v by (simp add: prod_eq_iff)
qed

lemma fold_put_idem:
  assumes "distinct (map fst L)"
  shows "fold put bs (fold put bs L) = fold put bs L"
proof (rule alist_eqI)
  show "map fst (fold put bs (fold put bs L)) = map fst (fold put bs L)"
    by (rule keys_fold_put_same) (rule keys_fold_put_has)
  show "distinct (map fst (fold put bs (fold put bs L)))"
    by (intro distinct_fold_put assms)
  show "map_of (fold put bs (fold put bs L)) = map_of (fold put bs L)"
    by (rule ext) (simp add: map_of_fold_put at_key_idem)
qed

lemma merge_once_landing: "landing (merge_once E rows db) = land_fun E rows (landing db)"
  by (auto simp: merge_once_def store_after_def upsert_landing_def land_fun_def execute_upsert_fold
      split: sum.splits option.splits)

lemma merge_once_flat: "flat (merge_once E rows db) = flat db"
  by (auto simp: merge_once_def store_after_def upsert_landing_def split: sum.splits option.splits)

lemma land_fun_idem:
  "distinct (map fst L) \<Longrightarrow> land_fun E rows (land_fun E rows L) = land_fun E rows L"
  by (auto simp: land_fun_def fold_put_idem split: sum.splits option.splits)

text \<open>
  C6. For a landing table whose hashes are distinct (\<open>hash\<close> is its primary key), any
  record sequence and any \<open>N\<close> of at least 1: merging the sequence \<open>N\<close> times leaves the
  landing table, and the flat table, as merging it once does. A merge that raises
  leaves the tables as they were, each time.
\<close>

theorem C6_merge_idempotent:
  assumes "1 \<le> N" and "distinct (map fst (landing db))"
  shows "landing (merge_times E rows N db) = landing (merge_once E rows db)
       \<and> flat (merge_times E rows N db) = flat (merge_once E rows db)"
  using assms(1)
proof (induction N rule: nat_induct_at_least)
  case base
  then show ?case by (simp add: merge_times_def)
next
  case (Suc n)
  have "merge_times E rows (Suc n) db = merge_once E rows (merge_times E rows n db)"
    by (simp add: merge_times_def)
  then show ?case
    using Suc.IH assms(2) by (simp add: merge_once_landing merge_once_flat land_fun_idem)
qed

theorem C6_merge_idempotent_witness:
  "(1::nat) \<le> 3 \<and> distinct (map fst (landing june_store))
   \<and> landing (merge_times two_dates [rec_january, rec_no_hash, rec_undated] 3 june_store)
     = [(''X'', \<lparr>l_raw = rec_undated, l_lastrefresh = Some 1704067200000000\<rparr>)]
   \<and> landing (merge_once two_dates [rec_january, rec_no_hash, rec_undated] june_store)
     = [(''X'', \<lparr>l_raw = rec_undated, l_lastrefresh = Some 1704067200000000\<rparr>)]"
proof -
  have n: "(1::nat) \<le> 3"
    by simp
  have d: "distinct (map fst (landing june_store))"
    by (simp add: june_store_def)
  have once: "landing (merge_once two_dates [rec_january, rec_no_hash, rec_undated] june_store)
     = [(''X'', \<lparr>l_raw = rec_undated, l_lastrefresh = Some 1704067200000000\<rparr>)]"
    by code_simp
  have "landing (merge_times two_dates [rec_january, rec_no_hash, rec_undated] 3 june_store)
     = landing (merge_once two_dates [rec_january, rec_no_hash, rec_undated] june_store)"
    using C6_merge_idempotent [OF n d] by blast
  then show ?thesis
    using n d once by simp
qed

section \<open>Strings of digits and their order\<close>

lemma length_fixed [simp]: "length (fixed w n) = w"
  by (induction w arbitrary: n) simp_all

lemma fixed_zero: "fixed w 0 = replicate w (CHR ''0'')"
  by (induction w) (simp_all add: digit_char_def replicate_append_same)

lemma length_decimal_pos: "0 < length (decimal n)"
  by (subst decimal.simps) simp

lemma zero_pad_fixed:
  "n < 10 ^ w \<Longrightarrow> 0 < w \<Longrightarrow> length (decimal n) \<le> w \<and> zero_pad w n = fixed w n"
proof (induction w arbitrary: n)
  case 0
  then show ?case by simp
next
  case (Suc w)
  show ?case
  proof (cases "n < 10")
    case True
    then have "decimal n = [digit_char n]" by (subst decimal.simps) simp
    then show ?thesis
      using True by (simp add: zero_pad_def fixed_zero)
  next
    case False
    then have w: "0 < w" using Suc.prems by (cases w) auto
    have d: "n div 10 < 10 ^ w" using Suc.prems by simp
    have dec: "decimal n = decimal (n div 10) @ [digit_char (n mod 10)]"
      using False by (subst decimal.simps) simp
    from Suc.IH [OF d w] have ih: "length (decimal (n div 10)) \<le> w"
      "replicate (w - length (decimal (n div 10))) (CHR ''0'') @ decimal (n div 10) = fixed w (n div 10)"
      by (simp_all add: zero_pad_def)
    have "zero_pad (Suc w) n =
      (replicate (w - length (decimal (n div 10))) (CHR ''0'') @ decimal (n div 10))
        @ [digit_char (n mod 10)]"
      by (simp add: zero_pad_def dec)
    then show ?thesis
      using ih dec by simp
  qed
qed

lemma of_char_digit_char: "a < 10 \<Longrightarrow> of_char (digit_char a) = 48 + a"
proof -
  assume "a < 10"
  then have "a = 0 \<or> a = 1 \<or> a = 2 \<or> a = 3 \<or> a = 4 \<or> a = 5 \<or> a = 6 \<or> a = 7
    \<or> a = 8 \<or> a = 9"
    by arith
  then show ?thesis
    by (elim disjE) (simp_all add: digit_char_def)
qed

lemma digit_char_less: "a < 10 \<Longrightarrow> b < 10 \<Longrightarrow> digit_char a < digit_char b \<longleftrightarrow> a < b"
  by (simp add: less_char_def of_char_digit_char)

lemma digit_char_eq: "a < 10 \<Longrightarrow> b < 10 \<Longrightarrow> digit_char a = digit_char b \<longleftrightarrow> a = b"
proof -
  assume a: "a < 10" "b < 10"
  have "digit_char a = digit_char b \<longleftrightarrow> (of_char (digit_char a) :: nat) = of_char (digit_char b)"
    by simp
  then show ?thesis
    using a by (simp only: of_char_digit_char) simp
qed

lemma digit_char_not_plus: "a < 10 \<Longrightarrow> digit_char a \<noteq> CHR ''+''"
proof
  assume "a < 10" and "digit_char a = CHR ''+''"
  then have "(of_char (CHR ''+'') :: nat) = 48 + a"
    using of_char_digit_char [of a] by simp
  then show False
    by simp
qed

lemma fixed_not_plus: "CHR ''+'' \<notin> set (fixed w n)"
  by (induction w arbitrary: n) (simp_all add: digit_char_not_plus [symmetric])

text \<open>Two strings that start with blocks of the same length are ordered by the blocks first.\<close>

lemma append_less_same_length:
  "length a = length b \<Longrightarrow> a @ x < b @ y \<longleftrightarrow> a < b \<or> (a = b \<and> x < y)"
  by (induction a b rule: list_induct2) auto

lemma append_le_same_length:
  "length a = length b \<Longrightarrow> a @ x \<le> b @ y \<longleftrightarrow> a < b \<or> (a = b \<and> x \<le> y)"
  by (induction a b rule: list_induct2) auto

lemma fixed_eq: "n < 10 ^ w \<Longrightarrow> m < 10 ^ w \<Longrightarrow> fixed w n = fixed w m \<longleftrightarrow> n = m"
proof (induction w arbitrary: n m)
  case 0
  then show ?case by simp
next
  case (Suc w)
  have d: "n div 10 < 10 ^ w" "m div 10 < 10 ^ w" using Suc.prems by simp_all
  have "fixed (Suc w) n = fixed (Suc w) m \<longleftrightarrow> n div 10 = m div 10 \<and> n mod 10 = m mod 10"
    using Suc.IH [OF d] by (simp add: digit_char_eq)
  also have "\<dots> \<longleftrightarrow> n = m"
    by (metis div_mult_mod_eq)
  finally show ?case .
qed

lemma div_mod_10_less:
  "(n::nat) < m \<longleftrightarrow> n div 10 < m div 10 \<or> (n div 10 = m div 10 \<and> n mod 10 < m mod 10)"
proof -
  define a r b t where "a = n div 10" and "r = n mod 10" and "b = m div 10" and "t = m mod 10"
  have "n = 10 * a + r" "m = 10 * b + t" "r < 10" "t < 10"
    by (simp_all add: a_def r_def b_def t_def)
  then have "n < m \<longleftrightarrow> a < b \<or> (a = b \<and> r < t)"
    by linarith
  then show ?thesis
    by (simp only: a_def r_def b_def t_def)
qed

lemma fixed_less: "n < 10 ^ w \<Longrightarrow> m < 10 ^ w \<Longrightarrow> fixed w n < fixed w m \<longleftrightarrow> n < m"
proof (induction w arbitrary: n m)
  case 0
  then show ?case by simp
next
  case (Suc w)
  have d: "n div 10 < 10 ^ w" "m div 10 < 10 ^ w" using Suc.prems by simp_all
  have 1: "fixed w (n div 10) < fixed w (m div 10) \<longleftrightarrow> n div 10 < m div 10"
    using Suc.IH [OF d] .
  have 2: "fixed w (n div 10) = fixed w (m div 10) \<longleftrightarrow> n div 10 = m div 10"
    using fixed_eq [OF d] .
  have 3: "[digit_char (n mod 10)] < [digit_char (m mod 10)] \<longleftrightarrow> n mod 10 < m mod 10"
    by (simp add: digit_char_less)
  have "fixed (Suc w) n < fixed (Suc w) m \<longleftrightarrow>
      fixed w (n div 10) < fixed w (m div 10)
      \<or> (fixed w (n div 10) = fixed w (m div 10)
          \<and> [digit_char (n mod 10)] < [digit_char (m mod 10)])"
    by (simp only: fixed.simps append_less_same_length length_fixed)
  then show ?case
    unfolding 1 2 3 using div_mod_10_less [of n m] by blast
qed

text \<open>A text without \<open>+\<close> is copied by the replacement of \<open>+00:00\<close>.\<close>

lemma replace_from_no_plus:
  "CHR ''+'' \<notin> set xs \<Longrightarrow>
   replace_from ''+00:00'' new (xs @ ys) = xs @ replace_from ''+00:00'' new ys"
  by (induction xs) auto

lemma replace_utc_suffix:
  "CHR ''+'' \<notin> set xs \<Longrightarrow> str_replace ''+00:00'' ''Z'' (xs @ ''+00:00'') = xs @ ''Z''"
  by (simp add: str_replace_def replace_from_no_plus)

section \<open>The ISO text of a UTC timestamp with whole seconds\<close>

lemma days_in_month_le: "days_in_month y m \<le> 31"
  by (simp add: days_in_month_def)

lemma format_offset_utc: "format_offset 0 = ''+00:00''"
  by (simp add: format_offset_def zero_pad_def decimal.simps digit_char_def)

lemma iso_quoted_utc:
  assumes "valid_datetime d" and "utcoffset d = Some 0" and "microsecond d = 0"
  shows "iso_quoted d =
    quoted (fixed 4 (year d) @ ''-'' @ fixed 2 (month d) @ ''-'' @ fixed 2 (day d) @ ''T''
      @ fixed 2 (hour d) @ '':'' @ fixed 2 (minute d) @ '':'' @ fixed 2 (second d) @ ''Z'')"
proof -
  have dd: "day d \<le> 31"
    using assms(1) days_in_month_le [of "year d" "month d"] by (simp add: valid_datetime_def)
  have p: "zero_pad 4 (year d) = fixed 4 (year d)" "zero_pad 2 (month d) = fixed 2 (month d)"
    "zero_pad 2 (day d) = fixed 2 (day d)" "zero_pad 2 (hour d) = fixed 2 (hour d)"
    "zero_pad 2 (minute d) = fixed 2 (minute d)" "zero_pad 2 (second d) = fixed 2 (second d)"
    using assms(1) dd by (simp_all add: valid_datetime_def zero_pad_fixed)
  let ?pre = "fixed 4 (year d) @ ''-'' @ fixed 2 (month d) @ ''-'' @ fixed 2 (day d) @ ''T''
      @ fixed 2 (hour d) @ '':'' @ fixed 2 (minute d) @ '':'' @ fixed 2 (second d)"
  have np: "CHR ''+'' \<notin> set ?pre"
    by (simp add: fixed_not_plus)
  have "isoformat d = ?pre @ ''+00:00''"
    using assms(2,3) by (simp add: isoformat_def p format_offset_utc)
  then have "str_replace ''+00:00'' ''Z'' (isoformat d) = ?pre @ ''Z''"
    using replace_utc_suffix [OF np] by simp
  then show ?thesis
    by (simp add: iso_quoted_def)
qed

lemma block_le:
  "length a = length b \<Longrightarrow> a @ c # x \<le> b @ c # (y::string) \<longleftrightarrow> a < b \<or> (a = b \<and> x \<le> y)"
  by (simp add: append_le_same_length)

text \<open>Two such texts are ordered as their fields are, the year first.\<close>

lemma iso_quoted_le:
  assumes "valid_datetime d" and "utcoffset d = Some 0" and "microsecond d = 0"
    and "valid_datetime e" and "utcoffset e = Some 0" and "microsecond e = 0"
  shows "iso_quoted d \<le> iso_quoted e \<longleftrightarrow> sort_key d \<le> sort_key e"
proof -
  have dd: "day d \<le> 31" "day e \<le> 31"
    using assms(1,4) days_in_month_le [of "year d" "month d"] days_in_month_le [of "year e" "month e"]
    by (simp_all add: valid_datetime_def)
  have b: "year d < 10 ^ 4" "year e < 10 ^ 4" "month d < 10 ^ 2" "month e < 10 ^ 2"
    "day d < 10 ^ 2" "day e < 10 ^ 2" "hour d < 10 ^ 2" "hour e < 10 ^ 2"
    "minute d < 10 ^ 2" "minute e < 10 ^ 2" "second d < 10 ^ 2" "second e < 10 ^ 2"
    using assms(1,4) dd by (simp_all add: valid_datetime_def)
  note f = fixed_less [OF b(1,2)] fixed_less [OF b(3,4)] fixed_less [OF b(5,6)]
    fixed_less [OF b(7,8)] fixed_less [OF b(9,10)] fixed_less [OF b(11,12)]
    fixed_eq [OF b(1,2)] fixed_eq [OF b(3,4)] fixed_eq [OF b(5,6)]
    fixed_eq [OF b(7,8)] fixed_eq [OF b(9,10)] fixed_eq [OF b(11,12)]
  show ?thesis
    unfolding iso_quoted_utc [OF assms(1,2,3)] iso_quoted_utc [OF assms(4,5,6)] quoted_def sort_key_def
    by (simp add: block_le f) 
qed

section \<open>The calendar: later dates have greater day numbers\<close>

lemma days_before_month_Suc:
  "1 \<le> m \<Longrightarrow> days_before_month y (Suc m) = days_before_month y m + days_in_month y m"
  by (cases m) simp_all

lemma days_before_month_mono: "m \<le> m' \<Longrightarrow> days_before_month y m \<le> days_before_month y m'"
proof (induction m' rule: nat_induct_at_least)
  case base
  then show ?case by simp
next
  case (Suc n)
  have "days_before_month y n \<le> days_before_month y (Suc n)"
    by (cases n) simp_all
  then show ?case using Suc by simp
qed

lemma days_in_year: "days_before_month y 13 = (if is_leap y then 366 else 365)"
proof -
  have e: "(13::nat) = Suc (Suc (Suc (Suc (Suc (Suc (Suc (Suc (Suc (Suc (Suc (Suc (Suc 0))))))))))))"
    by simp
  show ?thesis
    unfolding e by (simp add: days_in_month_def)
qed

lemma day_of_year_le:
  assumes "1 \<le> m" and "m \<le> 12" and "d \<le> days_in_month y m"
  shows "days_before_month y m + d \<le> days_before_month y 13"
proof -
  have "days_before_month y m + d \<le> days_before_month y (Suc m)"
    using assms(1,3) by (simp add: days_before_month_Suc)
  also have "\<dots> \<le> days_before_month y 13"
    using assms(2) by (intro days_before_month_mono) simp
  finally show ?thesis .
qed

lemma days_before_year_Suc:
  assumes "1 \<le> y"
  shows "days_before_year (Suc y) = days_before_year y + days_before_month y 13"
proof -
  obtain k where y: "y = Suc k" using assms by (cases y) auto
  define a b c where "a = k div 4" and "b = k div 100" and "c = k div 400"
  define P4 P100 P400 where "P4 \<longleftrightarrow> Suc k mod 4 = 0" and "P100 \<longleftrightarrow> Suc k mod 100 = 0"
    and "P400 \<longleftrightarrow> Suc k mod 400 = 0"
  have ba: "b \<le> a"
    by (simp add: a_def b_def div_le_mono2)
  have m4: "P100 \<Longrightarrow> P4"
    unfolding P4_def P100_def by presburger
  have m100: "P400 \<Longrightarrow> P100"
    unfolding P100_def P400_def by presburger
  have d: "Suc k div 4 = (if P4 then Suc a else a)" "Suc k div 100 = (if P100 then Suc b else b)"
    "Suc k div 400 = (if P400 then Suc c else c)"
    by (simp_all add: div_Suc a_def b_def c_def P4_def P100_def P400_def)
  have 1: "days_before_year (Suc y) =
      Suc k * 365 + (if P4 then Suc a else a) - (if P100 then Suc b else b)
      + (if P400 then Suc c else c)"
    by (simp only: days_before_year_def y diff_Suc_1 d)
  have 2: "days_before_year y = k * 365 + a - b + c"
    by (simp add: days_before_year_def y a_def b_def c_def)
  have 3: "days_before_month y 13 = (if P4 \<and> (\<not> P100 \<or> P400) then 366 else 365)"
    by (simp add: days_in_year is_leap_def y P4_def P100_def P400_def)
  show ?thesis
    unfolding 1 2 3 using ba m4 m100 by (cases P4; cases P100; cases P400) simp_all
qed

lemma days_before_year_mono: "y \<le> y' \<Longrightarrow> days_before_year y \<le> days_before_year y'"
proof (induction y' rule: nat_induct_at_least)
  case base
  then show ?case by simp
next
  case (Suc n)
  have "days_before_year n \<le> days_before_year (Suc n)"
  proof (cases "1 \<le> n")
    case True
    then show ?thesis by (simp add: days_before_year_Suc)
  next
    case False
    then show ?thesis by (simp add: days_before_year_def)
  qed
  then show ?case using Suc by simp
qed

text \<open>The day number of a valid date grows with the date.\<close>

lemma ymd2ord_less:
  assumes "1 \<le> y" and "1 \<le> m" and "m \<le> 12" and "1 \<le> d" and "d \<le> days_in_month y m"
    and "1 \<le> y'" and "1 \<le> m'" and "m' \<le> 12" and "1 \<le> d'" and "d' \<le> days_in_month y' m'"
    and "[y, m, d] < [y', m', d']"
  shows "ymd2ord y m d < ymd2ord y' m' d'"
proof -
  consider "y < y'" | "y = y'" "m < m'" | "y = y'" "m = m'" "d < d'"
    using assms(11) by auto
  then show ?thesis
  proof cases
    case 1
    have "ymd2ord y m d \<le> days_before_year y + days_before_month y 13"
      using day_of_year_le [OF assms(2,3,5)] by (simp add: ymd2ord_def)
    also have "\<dots> = days_before_year (Suc y)"
      using assms(1) by (simp add: days_before_year_Suc)
    also have "\<dots> \<le> days_before_year y'"
      using 1 by (intro days_before_year_mono) simp
    also have "\<dots> < ymd2ord y' m' d'"
      using assms(9) by (simp add: ymd2ord_def)
    finally show ?thesis .
  next
    case 2
    have "days_before_month y m + d \<le> days_before_month y (Suc m)"
      using assms(2,5) by (simp add: days_before_month_Suc)
    also have "\<dots> \<le> days_before_month y m'"
      using 2 by (intro days_before_month_mono) simp
    finally show ?thesis
      using 2 assms(9) by (simp add: ymd2ord_def)
  next
    case 3
    then show ?thesis by (simp add: ymd2ord_def)
  qed
qed

section \<open>The order of the fields is the order of the instants\<close>

lemma instant_utc:
  "utcoffset d = Some 0 \<Longrightarrow> microsecond d = 0 \<Longrightarrow> instant d = int (seconds_of d) * 1000000"
  by (simp add: instant_def seconds_of_def)

lemma sort_key_less_seconds:
  assumes "valid_datetime d" and "valid_datetime e" and "sort_key d < sort_key e"
  shows "seconds_of d < seconds_of e"
proof -
  let ?od = "ymd2ord (year d) (month d) (day d)" and ?oe = "ymd2ord (year e) (month e) (day e)"
  have bd: "hour d < 24" "minute d < 60" "second d < 60" "hour e < 24" "minute e < 60" "second e < 60"
    using assms(1,2) by (simp_all add: valid_datetime_def)
  consider "[year d, month d, day d] < [year e, month e, day e]"
    | "?od = ?oe" "hour d < hour e"
    | "?od = ?oe" "hour d = hour e" "minute d < minute e"
    | "?od = ?oe" "hour d = hour e" "minute d = minute e" "second d < second e"
    using assms(3) by (auto simp: sort_key_def)
  then show ?thesis
  proof cases
    case 1
    have "?od < ?oe"
      using assms(1,2) 1 by (intro ymd2ord_less) (simp_all add: valid_datetime_def)
    then have "Suc ?od \<le> ?oe" by simp
    then have "(Suc ?od) * 86400 \<le> ?oe * 86400" by (rule mult_le_mono1)
    then show ?thesis
      using bd by (simp add: seconds_of_def)
  next
    case 2
    then show ?thesis using bd by (simp add: seconds_of_def)
  next
    case 3
    then show ?thesis using bd by (simp add: seconds_of_def)
  next
    case 4
    then show ?thesis using bd by (simp add: seconds_of_def)
  qed
qed

lemma sort_key_le_instant:
  assumes "valid_datetime d" and "utcoffset d = Some 0" and "microsecond d = 0"
    and "valid_datetime e" and "utcoffset e = Some 0" and "microsecond e = 0"
  shows "sort_key d \<le> sort_key e \<longleftrightarrow> instant d \<le> instant e"
proof
  assume "sort_key d \<le> sort_key e"
  then consider "sort_key d < sort_key e" | "sort_key d = sort_key e"
    by (auto simp: le_less)
  then have "seconds_of d \<le> seconds_of e"
  proof cases
    case 1
    then show ?thesis using sort_key_less_seconds [OF assms(1,4)] by simp
  next
    case 2
    then show ?thesis by (simp add: sort_key_def seconds_of_def)
  qed
  then show "instant d \<le> instant e"
    by (simp add: instant_utc assms)
next
  assume i: "instant d \<le> instant e"
  show "sort_key d \<le> sort_key e"
  proof (rule ccontr)
    assume "\<not> sort_key d \<le> sort_key e"
    then have "sort_key e < sort_key d" by simp
    then have "seconds_of e < seconds_of d"
      using sort_key_less_seconds [OF assms(4,1)] by simp
    then show False
      using i by (simp add: instant_utc assms)
  qed
qed

section \<open>Claim C2: the watermark\<close>

lemma valid_today_start: "valid_datetime now \<Longrightarrow> valid_datetime (today_start now)"
  by (simp add: valid_datetime_def today_start_def)

lemma watermark_agrees:
  assumes "valid_datetime d" and "utcoffset d = Some 0" and "microsecond d = 0"
    and "valid_datetime now" and "utcoffset now = Some 0"
  shows "run_cycle_watermark (Some d) now = spec_watermark (Some d) now"
proof -
  let ?t = "today_start now"
  have t: "valid_datetime ?t" "utcoffset ?t = Some 0" "microsecond ?t = 0"
    using assms(4,5) by (simp_all add: valid_today_start) (simp_all add: today_start_def)
  have "iso_quoted d \<le> iso_quoted ?t \<longleftrightarrow> instant d \<le> instant ?t"
    using iso_quoted_le [OF assms(1,2,3) t] sort_key_le_instant [OF assms(1,2,3) t] by simp
  then show ?thesis
    by (auto simp: run_cycle_watermark_def spec_watermark_def today_midnight_iso_quoted_def max_def)
qed

text \<open>The same for a stored maximum with a fraction of a second, off today's midnight.\<close>

lemma length_iso_prefix [simp]: "length (iso_prefix d) = 19"
  by (simp add: iso_prefix_def)

lemma iso_quoted_utc_fraction:
  assumes "valid_datetime d" and "utcoffset d = Some 0"
  shows "iso_quoted d =
    quoted (iso_prefix d
      @ (if microsecond d \<noteq> 0 then ''.'' @ fixed 6 (microsecond d) else []) @ ''Z'')"
proof -
  have dd: "day d \<le> 31"
    using assms(1) days_in_month_le [of "year d" "month d"] by (simp add: valid_datetime_def)
  have p: "zero_pad 4 (year d) = fixed 4 (year d)" "zero_pad 2 (month d) = fixed 2 (month d)"
    "zero_pad 2 (day d) = fixed 2 (day d)" "zero_pad 2 (hour d) = fixed 2 (hour d)"
    "zero_pad 2 (minute d) = fixed 2 (minute d)" "zero_pad 2 (second d) = fixed 2 (second d)"
    using assms(1) dd by (simp_all add: valid_datetime_def zero_pad_fixed)
  have u: "zero_pad 6 (microsecond d) = fixed 6 (microsecond d)"
    using assms(1) by (simp add: valid_datetime_def zero_pad_fixed)
  let ?pre = "iso_prefix d @ (if microsecond d \<noteq> 0 then ''.'' @ fixed 6 (microsecond d) else [])"
  have np: "CHR ''+'' \<notin> set ?pre"
    by (simp add: iso_prefix_def fixed_not_plus)
  have "isoformat d = ?pre @ ''+00:00''"
    using assms(2) by (simp add: isoformat_def iso_prefix_def p u format_offset_utc)
  then have "str_replace ''+00:00'' ''Z'' (isoformat d) = ?pre @ ''Z''"
    using replace_utc_suffix [OF np] by simp
  then show ?thesis
    by (simp add: iso_quoted_def)
qed

lemma block_less:
  "length a = length b \<Longrightarrow> a @ c # x < b @ c # (y::string) \<longleftrightarrow> a < b \<or> (a = b \<and> x < y)"
  by (simp add: append_less_same_length)

lemma iso_prefix_order:
  assumes "valid_datetime d" and "valid_datetime e"
  shows "(iso_prefix d < iso_prefix e \<longleftrightarrow> sort_key d < sort_key e)
    \<and> (iso_prefix d = iso_prefix e \<longleftrightarrow> sort_key d = sort_key e)"
proof -
  have dd: "day d \<le> 31" "day e \<le> 31"
    using assms days_in_month_le [of "year d" "month d"] days_in_month_le [of "year e" "month e"]
    by (simp_all add: valid_datetime_def)
  have b: "year d < 10 ^ 4" "year e < 10 ^ 4" "month d < 10 ^ 2" "month e < 10 ^ 2"
    "day d < 10 ^ 2" "day e < 10 ^ 2" "hour d < 10 ^ 2" "hour e < 10 ^ 2"
    "minute d < 10 ^ 2" "minute e < 10 ^ 2" "second d < 10 ^ 2" "second e < 10 ^ 2"
    using assms dd by (simp_all add: valid_datetime_def)
  note f = fixed_less [OF b(1,2)] fixed_less [OF b(3,4)] fixed_less [OF b(5,6)]
    fixed_less [OF b(7,8)] fixed_less [OF b(9,10)] fixed_less [OF b(11,12)]
    fixed_eq [OF b(1,2)] fixed_eq [OF b(3,4)] fixed_eq [OF b(5,6)]
    fixed_eq [OF b(7,8)] fixed_eq [OF b(9,10)] fixed_eq [OF b(11,12)]
  have e: "iso_prefix d = iso_prefix e \<longleftrightarrow> sort_key d = sort_key e"
    unfolding iso_prefix_def sort_key_def by (simp add: f)
  have l: "iso_prefix d < iso_prefix e \<longleftrightarrow> sort_key d < sort_key e"
  proof -
    have "iso_prefix d @ ''Z'' < iso_prefix e @ ''Z'' \<longleftrightarrow> sort_key d < sort_key e"
      unfolding iso_prefix_def sort_key_def by (simp add: block_less f)
    then show ?thesis
      by (simp add: append_less_same_length)
  qed
  show ?thesis
    using e l by blast
qed

lemma instant_utc_fraction:
  "utcoffset d = Some 0 \<Longrightarrow> instant d = int (seconds_of d) * 1000000 + int (microsecond d)"
  by (simp add: instant_def seconds_of_def)

text \<open>
  The string comparison gives the maximum by timestamp for every stored maximum that is
  rendered in UTC and does not fall in the second of today's midnight.
\<close>

lemma watermark_agrees_off_midnight:
  assumes "valid_datetime d" and "utcoffset d = Some 0"
    and "valid_datetime now" and "utcoffset now = Some 0"
    and "sort_key d \<noteq> sort_key (today_start now)"
  shows "run_cycle_watermark (Some d) now = spec_watermark (Some d) now"
proof -
  let ?t = "today_start now"
  have t: "valid_datetime ?t" "utcoffset ?t = Some 0" "microsecond ?t = 0"
    using assms(3,4) by (simp_all add: valid_today_start) (simp_all add: today_start_def)
  note o = iso_prefix_order [OF assms(1) t(1)]
  have ne: "iso_prefix d \<noteq> iso_prefix ?t"
    using o assms(5) by blast
  have us: "microsecond d < 1000000"
    using assms(1) by (simp add: valid_datetime_def)
  have s: "iso_quoted d \<le> iso_quoted ?t \<longleftrightarrow> sort_key d < sort_key ?t"
    unfolding iso_quoted_utc_fraction [OF assms(1,2)] iso_quoted_utc_fraction [OF t(1,2)] quoted_def
    using ne o by (simp add: t(3) append_le_same_length)
  have i: "instant d \<le> instant ?t \<longleftrightarrow> sort_key d < sort_key ?t"
  proof
    assume "sort_key d < sort_key ?t"
    then have "seconds_of d < seconds_of ?t"
      using sort_key_less_seconds [OF assms(1) t(1)] by simp
    then have "int (seconds_of d) + 1 \<le> int (seconds_of ?t)"
      by simp
    then have "(int (seconds_of d) + 1) * 1000000 \<le> int (seconds_of ?t) * 1000000"
      by (simp only: mult_le_cancel_right) simp
    then show "instant d \<le> instant ?t"
      using us by (simp add: instant_utc_fraction assms(2) t(2,3) algebra_simps)
  next
    assume le: "instant d \<le> instant ?t"
    show "sort_key d < sort_key ?t"
    proof (rule ccontr)
      assume "\<not> sort_key d < sort_key ?t"
      then have "sort_key ?t < sort_key d"
        using assms(5) by auto
      then have "seconds_of ?t < seconds_of d"
        using sort_key_less_seconds [OF t(1) assms(1)] by simp
      then have "int (seconds_of ?t) * 1000000 < int (seconds_of d) * 1000000"
        by simp
      then show False
        using le by (simp add: instant_utc_fraction assms(2) t(2,3))
    qed
  qed
  show ?thesis
    using s i
    by (auto simp: run_cycle_watermark_def spec_watermark_def today_midnight_iso_quoted_def max_def)
qed

text \<open>
  What \<open>run_cycle\<close> computes. With no stored maximum (an empty landing table, or only
  null timestamps) the watermark is the quoted ISO text of today's midnight, UTC.
  Otherwise it is the greater of two texts, compared as strings. When the stored maximum
  is rendered in UTC and has no fraction of a second, both texts have the same length, as
  the comment in the code expects, and the text chosen is the one of the later instant.
\<close>

lemma watermark_by_string_order:
  "run_cycle_watermark None now = today_midnight_iso_quoted now
   \<and> run_cycle_watermark None now = spec_watermark None now
   \<and> (sql_max (map (\<lambda>kl. l_lastrefresh (snd kl)) (landing db)) = None \<longrightarrow>
        run_cycle_watermark (db_watermark timestamptz_out db) now = today_midnight_iso_quoted now)
   \<and> run_cycle_watermark (Some d) now =
        (if iso_quoted d \<le> today_midnight_iso_quoted now then today_midnight_iso_quoted now
         else iso_quoted d)
   \<and> (valid_datetime d \<and> utcoffset d = Some 0 \<and> microsecond d = 0
        \<and> valid_datetime now \<and> utcoffset now = Some 0 \<longrightarrow>
        length (iso_quoted d) = length (today_midnight_iso_quoted now)
        \<and> run_cycle_watermark (Some d) now = spec_watermark (Some d) now)"
proof (intro conjI impI)
  show "run_cycle_watermark None now = today_midnight_iso_quoted now"
    by (simp add: run_cycle_watermark_def)
  show "run_cycle_watermark None now = spec_watermark None now"
    by (simp add: run_cycle_watermark_def spec_watermark_def today_midnight_iso_quoted_def)
  show "run_cycle_watermark (Some d) now =
        (if iso_quoted d \<le> today_midnight_iso_quoted now then today_midnight_iso_quoted now
         else iso_quoted d)"
    by (simp add: run_cycle_watermark_def max_def)
next
  assume "sql_max (map (\<lambda>kl. l_lastrefresh (snd kl)) (landing db)) = None"
  then show "run_cycle_watermark (db_watermark timestamptz_out db) now = today_midnight_iso_quoted now"
    by (simp add: run_cycle_watermark_def db_watermark_def)
next
  assume a: "valid_datetime d \<and> utcoffset d = Some 0 \<and> microsecond d = 0
        \<and> valid_datetime now \<and> utcoffset now = Some 0"
  then show "run_cycle_watermark (Some d) now = spec_watermark (Some d) now"
    by (simp add: watermark_agrees)
  have t: "valid_datetime (today_start now)" "utcoffset (today_start now) = Some 0"
    "microsecond (today_start now) = 0"
    using a by (simp_all add: valid_today_start) (simp_all add: today_start_def)
  show "length (iso_quoted d) = length (today_midnight_iso_quoted now)"
    using a by (simp add: today_midnight_iso_quoted_def iso_quoted_utc t quoted_def)
qed

text \<open>
  The scenario of the specification: rows of 2024 in the landing table, today is
  2025-03-10; the watermark is today's midnight.
\<close>

lemma watermark_of_old_rows:
  "run_cycle_watermark (Some june_2024) march_10_0830 = quoted ''2025-03-10T00:00:00Z''
   \<and> run_cycle_watermark (Some june_2024) march_10_0830
       = spec_watermark (Some june_2024) march_10_0830"
proof -
  have v: "valid_datetime june_2024" "utcoffset june_2024 = Some 0" "microsecond june_2024 = 0"
    "valid_datetime march_10_0830" "utcoffset march_10_0830 = Some 0"
    by (simp_all add: valid_datetime_def june_2024_def march_10_0830_def days_in_month_def)
  have q: "iso_quoted june_2024 = quoted ''2024-06-01T00:00:00Z''"
    by (simp add: iso_quoted_def isoformat_def june_2024_def zero_pad_def
        decimal.simps digit_char_def format_offset_def str_replace_def)
  have t: "today_midnight_iso_quoted march_10_0830 = quoted ''2025-03-10T00:00:00Z''"
    by (simp add: today_midnight_iso_quoted_def iso_quoted_def isoformat_def march_10_0830_def
        today_start_def zero_pad_def decimal.simps digit_char_def format_offset_def str_replace_def)
  have c: "run_cycle_watermark (Some june_2024) march_10_0830 = quoted ''2025-03-10T00:00:00Z''"
    by (simp add: run_cycle_watermark_def q t quoted_def max_def)
  show ?thesis
    using c watermark_agrees [OF v] by blast
qed

text \<open>
  C2, at two stored maxima on 2025-03-10 (08:30 UTC). The claim has the resolver return
  the maximum of the stored value and today's midnight by timestamp comparison, never a
  value before today's midnight; the docstring of \<open>run_cycle\<close> says the same
  (\<^verbatim>\<open>max(DB watermark, today@00:00Z)\<close>) and its comments expect two texts of the same
  length. The code compares the texts as strings.

  First, the stored maximum is half a second past today's midnight, UTC. Its text
  \<open>'2025-03-10T00:00:00.500000Z'\<close> is longer and the smaller string (\<open>.\<close> is before
  \<open>Z\<close>): the code returns today's midnight, while the stored maximum is the later
  instant.

  Second, the session's time zone is +05:00 and the stored maximum is 2025-03-09 20:00
  UTC, rendered as \<open>2025-03-10T01:00:00+05:00\<close>. This text is the greater string: the
  code returns it, a watermark four hours before today's midnight.
\<close>

theorem C2_string_order_is_not_timestamp_order:
  "run_cycle_watermark (Some march_10_half_past_midnight) march_10_0830
     = quoted ''2025-03-10T00:00:00Z''
   \<and> instant (today_start march_10_0830) < instant march_10_half_past_midnight
   \<and> spec_watermark (Some march_10_half_past_midnight) march_10_0830
     = quoted ''2025-03-10T00:00:00.500000Z''
   \<and> run_cycle_watermark (Some march_10_half_past_midnight) march_10_0830
     \<noteq> spec_watermark (Some march_10_half_past_midnight) march_10_0830
   \<and> run_cycle_watermark (Some march_10_0100_plus5) march_10_0830
     = quoted ''2025-03-10T01:00:00+05:00''
   \<and> instant march_10_0100_plus5 < instant (today_start march_10_0830)
   \<and> spec_watermark (Some march_10_0100_plus5) march_10_0830
     = quoted ''2025-03-10T00:00:00Z''"
proof -
  have q: "iso_quoted march_10_half_past_midnight = quoted ''2025-03-10T00:00:00.500000Z''"
    by (simp add: iso_quoted_def isoformat_def march_10_half_past_midnight_def zero_pad_def
        decimal.simps digit_char_def format_offset_def str_replace_def)
  have p: "iso_quoted march_10_0100_plus5 = quoted ''2025-03-10T01:00:00+05:00''"
    by (simp add: iso_quoted_def isoformat_def march_10_0100_plus5_def zero_pad_def
        decimal.simps digit_char_def format_offset_def str_replace_def)
  have t: "iso_quoted (today_start march_10_0830) = quoted ''2025-03-10T00:00:00Z''"
    by (simp add: iso_quoted_def isoformat_def march_10_0830_def today_start_def zero_pad_def
        decimal.simps digit_char_def format_offset_def str_replace_def)
  have i: "instant (today_start march_10_0830) < instant march_10_half_past_midnight"
    by (simp add: instant_def march_10_0830_def march_10_half_past_midnight_def today_start_def)
  have k: "instant march_10_0100_plus5 < instant (today_start march_10_0830)"
    by (simp add: instant_def march_10_0830_def march_10_0100_plus5_def today_start_def)
  have c: "run_cycle_watermark (Some march_10_half_past_midnight) march_10_0830
     = quoted ''2025-03-10T00:00:00Z''"
    by (simp add: run_cycle_watermark_def today_midnight_iso_quoted_def q t quoted_def max_def)
  have s: "spec_watermark (Some march_10_half_past_midnight) march_10_0830
     = quoted ''2025-03-10T00:00:00.500000Z''"
    using i by (simp add: spec_watermark_def q)
  have ne: "run_cycle_watermark (Some march_10_half_past_midnight) march_10_0830
     \<noteq> spec_watermark (Some march_10_half_past_midnight) march_10_0830"
    unfolding c s by (simp add: quoted_def)
  have c': "run_cycle_watermark (Some march_10_0100_plus5) march_10_0830
     = quoted ''2025-03-10T01:00:00+05:00''"
    by (simp add: run_cycle_watermark_def today_midnight_iso_quoted_def p t quoted_def max_def)
  have s': "spec_watermark (Some march_10_0100_plus5) march_10_0830
     = quoted ''2025-03-10T00:00:00Z''"
    using k by (simp add: spec_watermark_def t)
  show ?thesis
    using c i s ne c' k s' by blast
qed

end
